theory Spec2Isabelle
  imports Complex_Main "HOL-Library.Sublist" "HOL-Library.Word" "HOL-Library.Multiset"
begin

section \<open>Data model\<close>

text \<open>
  Shallow embedding of the LogFlux JavaScript SDK: the transport client
  (\<^verbatim>\<open>src/client/index.ts\<close>), the batching engine (\<^verbatim>\<open>src/client/batch.ts\<close>), the
  message constructors (\<^verbatim>\<open>src/types/index.ts\<close>) and the configuration module
  (\<^verbatim>\<open>src/config/index.ts\<close>).

  Conventions of the embedding.
  \<^item> A JavaScript \<^verbatim>\<open>number\<close> that is a count produced by the code itself
    (\<^verbatim>\<open>batch.length\<close>, \<^verbatim>\<open>consecutiveFailures\<close>, the counters of \<^verbatim>\<open>BatchStats\<close>) is a
    \<^typ>\<open>nat\<close>; a number supplied by configuration (limits, delays, multipliers) is a
    \<^typ>\<open>rat\<close>, since validation does not require integers; a clock reading
    (\<^verbatim>\<open>Date.now()\<close>) is an \<^typ>\<open>int\<close> of milliseconds. Arithmetic is exact: the rounding
    of IEEE doubles, \<^verbatim>\<open>NaN\<close> and the infinities are outside the model.
  \<^item> A string that the code measures or parses (the payload, the metadata keys and
    values, the address) is a \<open>jsstring\<close>, the list of its UTF-16 code units, as a
    JavaScript string is; a string that the code only compares or tests for emptiness
    (a status, a secret, a version) is a \<^typ>\<open>string\<close>, and \<^verbatim>\<open>!s\<close> is \<open>s = []\<close>.
  \<^item> An optional field (\<^verbatim>\<open>x?: T\<close>) is a \<^typ>\<open>'a option\<close>; \<^verbatim>\<open>x ?? d\<close> is a case on it.
  \<^item> A rejected promise or a \<^verbatim>\<open>throw\<close> is the \<open>Inl\<close> of a sum. Each method of the batching
    engine is given twice: once completed in one step, as it runs when the caller
    awaits it and nothing else touches the object meanwhile (\<open>flush\<close>, \<open>addLogEntry\<close>,
    \<open>stop\<close>, \<open>timerFires\<close>, and the histories \<open>run\<close>), and once split at
    \<^verbatim>\<open>await this.client.sendLogBatch(...)\<close>, where the source suspends and other calls
    may run (\<open>flush_begin\<close>, \<open>flush_settle\<close>, and the schedules \<open>play\<close>). The first is
    the second with every call settled and resumed at once.
  \<^item> Whatever the socket, the file system and the clock do is an input of the step (the
    records \<open>net\<close> and \<open>env\<close>); whatever the step does to them is an output (the lists of
    \<open>io\<close> and \<open>effect\<close>).
\<close>

subsection \<open>Strings\<close>

type_synonym jsstring = "16 word list"

text \<open>The JavaScript string of a literal whose characters are below U+0100.\<close>

definition units :: "string \<Rightarrow> jsstring" where
  "units t = map (\<lambda>c. of_nat (of_char c)) t"

text \<open>
  \<^verbatim>\<open>Buffer.byteLength(s, 'utf8')\<close>: the number of bytes of the UTF-8 encoding. A code
  unit below U+0080 takes one byte, one below U+0800 two, a high surrogate followed
  by a low surrogate four for the pair, and every other code unit three (a surrogate
  without its partner is encoded as U+FFFD).
\<close>

definition is_high :: "16 word \<Rightarrow> bool" where
  "is_high u = (0xD800 \<le> u \<and> u \<le> 0xDBFF)"

definition is_low :: "16 word \<Rightarrow> bool" where
  "is_low u = (0xDC00 \<le> u \<and> u \<le> 0xDFFF)"

definition unit_len :: "16 word \<Rightarrow> nat" where
  "unit_len u = (if u < 0x80 then 1 else if u < 0x800 then 2 else 3)"

fun byteLength_utf8 :: "jsstring \<Rightarrow> nat" where
  "byteLength_utf8 [] = 0"
| "byteLength_utf8 [u] = unit_len u"
| "byteLength_utf8 (u # v # rest) =
     (if is_high u \<and> is_low v then 4 + byteLength_utf8 rest
      else unit_len u + byteLength_utf8 (v # rest))"

subsection \<open>Messages\<close>

record LogEntry =
  version :: "string option"
  payload :: jsstring
  source :: string
  timestamp :: "string option"
  payloadType :: "string option"
  metadata :: "(jsstring \<times> jsstring) list option"
  entryType :: int
  logLevel :: int

record LogBatch =
  version :: "string option"
  entries :: "LogEntry list"

text \<open>\<^verbatim>\<open>PingRequest\<close> is \<open>{version, action}\<close> and \<^verbatim>\<open>AuthRequest\<close> is
  \<open>{version, action, shared_secret}\<close>; \<open>message\<close> is the union type that \<^verbatim>\<open>sendData\<close>
  accepts.\<close>

datatype message =
    MLogEntry LogEntry
  | MLogBatch LogBatch
  | MPingRequest "string option" string
  | MAuthRequest "string option" string string

datatype error =
    ClientStopped
  | BatchEmpty
  | BatchTooLarge
  | SharedSecretRequired
  | SharedSecretEmpty
  | SocketNotFound
  | InvalidTCPAddress
  | BadPort
  | ConnectionTimeout
  | SocketError
  | NoSocketConnection
  | SendTimeout
  | WriteError
  | ReadTimeout
  | InvalidJSONResponse
  | ConfigError string

definition DEFAULT_PROTOCOL_VERSION :: string where
  "DEFAULT_PROTOCOL_VERSION = ''1.0''"

definition createPingRequest :: message where
  "createPingRequest = MPingRequest (Some DEFAULT_PROTOCOL_VERSION) ''ping''"

definition createAuthRequest :: "string \<Rightarrow> error + message" where
  "createAuthRequest sharedSecret =
     (if sharedSecret = [] then Inl SharedSecretEmpty
      else Inr (MAuthRequest (Some DEFAULT_PROTOCOL_VERSION) ''authenticate'' sharedSecret))"

text \<open>The value \<^verbatim>\<open>JSON.parse\<close> returns for a response line.\<close>

datatype json =
    JNull
  | JBool bool
  | JNumber rat
  | JString string
  | JArray "json list"
  | JObject "(string \<times> json) list"

text \<open>JavaScript truthiness of a parsed value, and the property read \<^verbatim>\<open>response.status\<close>
  (\<open>None\<close> is \<^verbatim>\<open>undefined\<close>; in an object literal with a repeated key the last one wins).\<close>

fun truthy :: "json \<Rightarrow> bool" where
  "truthy JNull = False"
| "truthy (JBool b) = b"
| "truthy (JNumber n) = (n \<noteq> 0)"
| "truthy (JString s) = (s \<noteq> [])"
| "truthy (JArray _) = True"
| "truthy (JObject _) = True"

fun status_of :: "json \<Rightarrow> json option" where
  "status_of (JObject kvs) = map_of (rev kvs) ''status''"
| "status_of _ = None"

definition status_is :: "string \<Rightarrow> json \<Rightarrow> bool" where
  "status_is want response = (truthy response \<and> status_of response = Some (JString want))"

subsection \<open>Configuration\<close>

datatype NetworkType = Unix | TCP

record Config =
  network :: NetworkType
  address :: jsstring
  timeout :: rat
  sharedSecret :: "string option"
  batchSize :: rat
  flushInterval :: rat
  maxRetries :: rat
  retryDelay :: rat

record BatchConfig =
  maxBatchSize :: rat
  flushInterval :: rat
  maxMemoryUsage :: rat
  flushOnExit :: bool
  initialRetryDelay :: "rat option"
  maxRetryDelay :: "rat option"
  retryBackoffMultiplier :: "rat option"
  circuitBreakerFailureThreshold :: "rat option"
  circuitBreakerOpenTimeout :: "rat option"

definition MIN_BATCH_SIZE :: rat where "MIN_BATCH_SIZE = 1"
definition MAX_BATCH_SIZE :: rat where "MAX_BATCH_SIZE = 100"
definition DEFAULT_FLUSH_INTERVAL :: rat where "DEFAULT_FLUSH_INTERVAL = 1000"
definition DEFAULT_INITIAL_RETRY_DELAY :: rat where "DEFAULT_INITIAL_RETRY_DELAY = 500"
definition DEFAULT_MAX_RETRY_DELAY :: rat where "DEFAULT_MAX_RETRY_DELAY = 30000"
definition DEFAULT_RETRY_BACKOFF_MULTIPLIER :: rat where "DEFAULT_RETRY_BACKOFF_MULTIPLIER = 2"
definition DEFAULT_CIRCUIT_BREAKER_FAILURE_THRESHOLD :: rat where
  "DEFAULT_CIRCUIT_BREAKER_FAILURE_THRESHOLD = 5"
definition DEFAULT_CIRCUIT_BREAKER_OPEN_TIMEOUT :: rat where
  "DEFAULT_CIRCUIT_BREAKER_OPEN_TIMEOUT = 10000"

definition createDefaultBatchConfig :: BatchConfig where
  "createDefaultBatchConfig =
     \<lparr> maxBatchSize = MAX_BATCH_SIZE,
       flushInterval = DEFAULT_FLUSH_INTERVAL,
       maxMemoryUsage = 512 * 1024,
       flushOnExit = True,
       initialRetryDelay = Some DEFAULT_INITIAL_RETRY_DELAY,
       maxRetryDelay = Some DEFAULT_MAX_RETRY_DELAY,
       retryBackoffMultiplier = Some DEFAULT_RETRY_BACKOFF_MULTIPLIER,
       circuitBreakerFailureThreshold = Some DEFAULT_CIRCUIT_BREAKER_FAILURE_THRESHOLD,
       circuitBreakerOpenTimeout = Some DEFAULT_CIRCUIT_BREAKER_OPEN_TIMEOUT \<rparr>"

text \<open>\<^verbatim>\<open>x !== undefined && x <= 0\<close> and its relatives, on an optional number.\<close>

definition defined_and :: "rat option \<Rightarrow> (rat \<Rightarrow> bool) \<Rightarrow> bool" where
  "defined_and x p = (case x of None \<Rightarrow> False | Some v \<Rightarrow> p v)"

definition validateBatchBasicConfig :: "BatchConfig \<Rightarrow> error + unit" where
  "validateBatchBasicConfig cfg =
     (if maxBatchSize cfg < MIN_BATCH_SIZE \<or> maxBatchSize cfg > MAX_BATCH_SIZE
        then Inl (ConfigError ''maxBatchSize must be between 1 and 100'')
      else if flushInterval cfg \<le> 0
        then Inl (ConfigError ''flushInterval must be positive'')
      else if maxMemoryUsage cfg \<le> 0
        then Inl (ConfigError ''maxMemoryUsage must be positive'')
      else Inr ())"

definition validateBatchRetryConfig :: "BatchConfig \<Rightarrow> error + unit" where
  "validateBatchRetryConfig cfg =
     (if defined_and (initialRetryDelay cfg) (\<lambda>v. v \<le> 0)
        then Inl (ConfigError ''initialRetryDelay must be positive'')
      else if defined_and (maxRetryDelay cfg) (\<lambda>v. v \<le> 0)
        then Inl (ConfigError ''maxRetryDelay must be positive'')
      else if defined_and (retryBackoffMultiplier cfg) (\<lambda>v. v \<le> 1)
        then Inl (ConfigError ''retryBackoffMultiplier must be greater than 1'')
      else if defined_and (initialRetryDelay cfg)
                (\<lambda>i. defined_and (maxRetryDelay cfg) (\<lambda>m. i > m))
        then Inl (ConfigError
               ''initialRetryDelay must be less than or equal to maxRetryDelay'')
      else Inr ())"

definition validateBatchCircuitBreakerConfig :: "BatchConfig \<Rightarrow> error + unit" where
  "validateBatchCircuitBreakerConfig cfg =
     (if defined_and (circuitBreakerFailureThreshold cfg) (\<lambda>v. v \<le> 0)
        then Inl (ConfigError ''circuitBreakerFailureThreshold must be positive'')
      else if defined_and (circuitBreakerOpenTimeout cfg) (\<lambda>v. v \<le> 0)
        then Inl (ConfigError ''circuitBreakerOpenTimeout must be positive'')
      else Inr ())"

definition validateBatchConfig :: "BatchConfig \<Rightarrow> error + unit" where
  "validateBatchConfig cfg =
     (case validateBatchBasicConfig cfg of
        Inl e \<Rightarrow> Inl e
      | Inr _ \<Rightarrow>
          (case validateBatchRetryConfig cfg of
             Inl e \<Rightarrow> Inl e
           | Inr _ \<Rightarrow> validateBatchCircuitBreakerConfig cfg))"

definition DEFAULT_TIMEOUT :: rat where "DEFAULT_TIMEOUT = 2000"
definition DEFAULT_RETRY_DELAY :: rat where "DEFAULT_RETRY_DELAY = 1000"

definition createDefaultConfig :: Config where
  "createDefaultConfig =
     \<lparr> network = Unix,
       address = units ''/tmp/logflux-agent.sock'',
       timeout = DEFAULT_TIMEOUT,
       sharedSecret = None,
       batchSize = 10,
       flushInterval = DEFAULT_FLUSH_INTERVAL,
       maxRetries = 3,
       retryDelay = DEFAULT_RETRY_DELAY \<rparr>"

text \<open>\<^verbatim>\<open>validateConfig\<close>; the warning it prints for a TCP configuration without a shared
  secret changes nothing and is left out.\<close>

definition validateConfig :: "Config \<Rightarrow> error + unit" where
  "validateConfig cfg =
     (if address cfg = [] then Inl (ConfigError ''address is required'')
      else if timeout cfg \<le> 0 then Inl (ConfigError ''timeout must be positive'')
      else if batchSize cfg < MIN_BATCH_SIZE \<or> batchSize cfg > MAX_BATCH_SIZE
        then Inl (ConfigError ''batchSize must be between 1 and 100'')
      else if Config.flushInterval cfg \<le> 0
        then Inl (ConfigError ''flushInterval must be positive'')
      else if maxRetries cfg < 0 then Inl (ConfigError ''maxRetries must be non-negative'')
      else if retryDelay cfg < 0 then Inl (ConfigError ''retryDelay must be non-negative'')
      else Inr ())"

section \<open>The transport client\<close>

text \<open>
  \<open>socket\<close> tells whether \<^verbatim>\<open>this.socket\<close> holds a socket object. What the outside world
  does during one call of a client method is the record \<open>net\<close>: whether the Unix socket
  path exists (\<^verbatim>\<open>fs.existsSync\<close>), which of the three ways the connection attempt ends
  (the \<^verbatim>\<open>connect\<close> event, the \<^verbatim>\<open>error\<close> event, the timer), how the write ends and what the
  read delivers. Each method connects, writes and reads at most once, so one record
  per call is enough. The socket operations a call performs are returned as \<open>io\<close> list.
\<close>

record LogFluxClient =
  config :: Config
  socket :: bool
  connected :: bool

datatype handshake_outcome = ConnectEvent | ErrorEvent | ConnectTimer
datatype write_outcome = WriteDone | WriteFailed | WriteTimer
datatype read_outcome = DataParsed json | DataMalformed | ReadTimer

record net =
  pathExists :: bool
  handshake :: handshake_outcome
  written :: write_outcome
  response :: read_outcome

datatype io = CreateConnection | Write message | ReadData | Destroy

type_synonym 'a client_result = "(error + 'a) \<times> LogFluxClient \<times> io list"

definition newLogFluxClient :: "Config option \<Rightarrow> error + LogFluxClient" where
  "newLogFluxClient cfg =
     (let c = (case cfg of None \<Rightarrow> createDefaultConfig | Some c \<Rightarrow> c)
      in case validateConfig c of
           Inl e \<Rightarrow> Inl e
         | Inr _ \<Rightarrow> Inr \<lparr> config = c, socket = False, connected = False \<rparr>)"

text \<open>\<^verbatim>\<open>address.split(':')\<close> and \<^verbatim>\<open>parseInt(portStr, 10)\<close>; \<open>None\<close> is \<^verbatim>\<open>NaN\<close>
  (also the result for the missing second component). \<^verbatim>\<open>parseInt\<close> skips the white
  space and line terminators of ECMAScript, reads an optional sign and then the
  longest run of decimal digits.\<close>

fun split_on :: "16 word \<Rightarrow> jsstring \<Rightarrow> jsstring list" where
  "split_on d [] = [[]]"
| "split_on d (c # cs) =
     (if c = d then [] # split_on d cs
      else (case split_on d cs of
              [] \<Rightarrow> [[c]]
            | w # ws \<Rightarrow> (c # w) # ws))"

definition is_space :: "16 word \<Rightarrow> bool" where
  "is_space c =
     (c \<in> set [0x09, 0x0A, 0x0B, 0x0C, 0x0D, 0x20, 0xA0, 0x1680, 0x2028, 0x2029, 0x202F,
               0x205F, 0x3000, 0xFEFF]
      \<or> (0x2000 \<le> c \<and> c \<le> 0x200A))"

definition is_digit :: "16 word \<Rightarrow> bool" where
  "is_digit c = (0x30 \<le> c \<and> c \<le> 0x39)"

definition digit_val :: "16 word \<Rightarrow> int" where
  "digit_val c = uint c - 48"

definition parseInt10 :: "jsstring \<Rightarrow> int option" where
  "parseInt10 s =
     (let t = dropWhile is_space s;
          neg = (case t of [] \<Rightarrow> False | c # _ \<Rightarrow> c = 0x2D);
          u = (case t of [] \<Rightarrow> []
               | c # r \<Rightarrow> if c = 0x2D \<or> c = 0x2B then r else t);
          ds = takeWhile is_digit u
      in if ds = [] then None
         else Some ((if neg then - 1 else 1) * foldl (\<lambda>a c. 10 * a + digit_val c) 0 ds))"

definition tcp_host_port :: "jsstring \<Rightarrow> jsstring \<times> int option" where
  "tcp_host_port addr =
     (case split_on 0x3A addr of
        [] \<Rightarrow> ([], None)
      | [host] \<Rightarrow> (host, None)
      | host # portStr # _ \<Rightarrow> (host, parseInt10 portStr))"

definition settle_handshake :: "net \<Rightarrow> LogFluxClient \<Rightarrow> unit client_result" where
  "settle_handshake n c =
     (case handshake n of
        ConnectEvent \<Rightarrow> (Inr (), c, [CreateConnection])
      | ErrorEvent \<Rightarrow> (Inl SocketError, c, [CreateConnection])
      | ConnectTimer \<Rightarrow> (Inl ConnectionTimeout, c, [CreateConnection, Destroy]))"

definition connectUnix :: "net \<Rightarrow> LogFluxClient \<Rightarrow> unit client_result" where
  "connectUnix n c =
     (if \<not> pathExists n then (Inl SocketNotFound, c, [])
      else settle_handshake n (c\<lparr>socket := True\<rparr>))"

text \<open>\<^verbatim>\<open>net.createConnection(port, host)\<close> throws for a port outside 0..65535, inside
  the executor of the promise and before \<^verbatim>\<open>this.socket\<close> is assigned: the promise is
  rejected and nothing else has happened.\<close>

definition connectTCP :: "net \<Rightarrow> LogFluxClient \<Rightarrow> unit client_result" where
  "connectTCP n c =
     (case tcp_host_port (address (LogFluxClient.config c)) of
        (host, port) \<Rightarrow>
          if host = [] \<or> port = None \<or> port = Some 0 then (Inl InvalidTCPAddress, c, [])
          else if (case port of None \<Rightarrow> False | Some p \<Rightarrow> p < 0 \<or> 65535 < p)
            then (Inl BadPort, c, [])
          else settle_handshake n (c\<lparr>socket := True\<rparr>))"

text \<open>The \<^verbatim>\<open>default:\<close> branches of the two \<^verbatim>\<open>switch (this.config.network)\<close> statements
  are unreachable for a value of the enumeration and have no counterpart here.\<close>

definition connect :: "net \<Rightarrow> LogFluxClient \<Rightarrow> unit client_result" where
  "connect n c =
     (if connected c then (Inr (), c, [])
      else (case (case network (LogFluxClient.config c) of
                    Unix \<Rightarrow> connectUnix n c
                  | TCP \<Rightarrow> connectTCP n c) of
              (Inl e, c', ios) \<Rightarrow> (Inl e, c', ios)
            | (Inr _, c', ios) \<Rightarrow> (Inr (), c'\<lparr>connected := True\<rparr>, ios)))"

definition close :: "LogFluxClient \<Rightarrow> LogFluxClient \<times> io list" where
  "close c =
     (if socket c then (c\<lparr>socket := False, connected := False\<rparr>, [Destroy])
      else (c\<lparr>connected := False\<rparr>, []))"

definition sendSocket :: "net \<Rightarrow> message \<Rightarrow> LogFluxClient \<Rightarrow> unit client_result" where
  "sendSocket n m c =
     (if \<not> socket c then (Inl NoSocketConnection, c, [])
      else (case written n of
              WriteDone \<Rightarrow> (Inr (), c, [Write m])
            | WriteFailed \<Rightarrow> (Inl WriteError, c, [Write m])
            | WriteTimer \<Rightarrow> (Inl SendTimeout, c, [Write m])))"

definition sendData :: "net \<Rightarrow> message \<Rightarrow> LogFluxClient \<Rightarrow> unit client_result" where
  "sendData n m c =
     (case network (LogFluxClient.config c) of
        Unix \<Rightarrow> sendSocket n m c
      | TCP \<Rightarrow> sendSocket n m c)"

definition readResponse :: "net \<Rightarrow> LogFluxClient \<Rightarrow> json client_result" where
  "readResponse n c =
     (if \<not> socket c then (Inl NoSocketConnection, c, [])
      else (case response n of
              DataParsed j \<Rightarrow> (Inr j, c, [ReadData])
            | DataMalformed \<Rightarrow> (Inl InvalidJSONResponse, c, [ReadData])
            | ReadTimer \<Rightarrow> (Inl ReadTimeout, c, [ReadData])))"

text \<open>\<^verbatim>\<open>if (!this.connected) { await this.connect(); }\<close>, the opening of every sending
  method.\<close>

definition ensure_connected :: "net \<Rightarrow> LogFluxClient \<Rightarrow> unit client_result" where
  "ensure_connected n c = (if \<not> connected c then connect n c else (Inr (), c, []))"

definition sendLogEntry :: "net \<Rightarrow> LogEntry \<Rightarrow> LogFluxClient \<Rightarrow> unit client_result" where
  "sendLogEntry n entry c =
     (case ensure_connected n c of
        (Inl e, c1, io1) \<Rightarrow> (Inl e, c1, io1)
      | (Inr _, c1, io1) \<Rightarrow>
          (case sendData n (MLogEntry entry) c1 of
             (r, c2, io2) \<Rightarrow> (r, c2, io1 @ io2)))"

definition sendLogBatch :: "net \<Rightarrow> LogBatch \<Rightarrow> LogFluxClient \<Rightarrow> unit client_result" where
  "sendLogBatch n b c =
     (if length (entries b) = 0 then (Inl BatchEmpty, c, [])
      else if length (entries b) > 100 then (Inl BatchTooLarge, c, [])
      else (case ensure_connected n c of
              (Inl e, c1, io1) \<Rightarrow> (Inl e, c1, io1)
            | (Inr _, c1, io1) \<Rightarrow>
                (case sendData n (MLogBatch b) c1 of
                   (r, c2, io2) \<Rightarrow> (r, c2, io1 @ io2))))"

text \<open>The body of the \<^verbatim>\<open>try\<close> block shared by \<^verbatim>\<open>ping\<close> and \<^verbatim>\<open>authenticate\<close>: send the
  request, read one response, compare its status; the \<^verbatim>\<open>catch\<close> turns an error of
  either step into \<^verbatim>\<open>false\<close>.\<close>

definition exchange :: "net \<Rightarrow> message \<Rightarrow> string \<Rightarrow> LogFluxClient \<Rightarrow> bool client_result" where
  "exchange n request want c =
     (case sendData n request c of
        (Inl e, c1, io1) \<Rightarrow> (Inr False, c1, io1)
      | (Inr _, c1, io1) \<Rightarrow>
          (case readResponse n c1 of
             (Inl e, c2, io2) \<Rightarrow> (Inr False, c2, io1 @ io2)
           | (Inr resp, c2, io2) \<Rightarrow> (Inr (status_is want resp), c2, io1 @ io2)))"

definition ping :: "net \<Rightarrow> LogFluxClient \<Rightarrow> bool client_result" where
  "ping n c =
     (case ensure_connected n c of
        (Inl e, c1, io1) \<Rightarrow> (Inl e, c1, io1)
      | (Inr _, c1, io1) \<Rightarrow>
          (case exchange n createPingRequest ''pong'' c1 of
             (r, c2, io2) \<Rightarrow> (r, c2, io1 @ io2)))"

text \<open>\<^verbatim>\<open>!this.config.sharedSecret\<close> holds for \<^verbatim>\<open>undefined\<close> and for the empty string.\<close>

definition authenticate :: "net \<Rightarrow> LogFluxClient \<Rightarrow> bool client_result" where
  "authenticate n c =
     (if network (LogFluxClient.config c) \<noteq> TCP then (Inr True, c, [])
      else (case sharedSecret (LogFluxClient.config c) of
              None \<Rightarrow> (Inl SharedSecretRequired, c, [])
            | Some secret \<Rightarrow>
                if secret = [] then (Inl SharedSecretRequired, c, [])
                else (case ensure_connected n c of
                        (Inl e, c1, io1) \<Rightarrow> (Inl e, c1, io1)
                      | (Inr _, c1, io1) \<Rightarrow>
                          (case createAuthRequest secret of
                             Inl e \<Rightarrow> (Inr False, c1, io1)
                           | Inr request \<Rightarrow>
                               (case exchange n request ''success'' c1 of
                                  (r, c2, io2) \<Rightarrow> (r, c2, io1 @ io2))))))"

section \<open>The batching engine\<close>

record BatchStats =
  entriesProcessed :: nat
  batchesSent :: nat
  errors :: nat
  averageBatchSize :: rat
  lastFlushTime :: "int option"

text \<open>
  The fields of \<^verbatim>\<open>class BatchClient\<close>. \<open>flushTimer\<close> and \<open>exitHandlers\<close> tell whether the
  field holds a value; \<open>circuitOpenTime\<close> is \<open>None\<close> for \<^verbatim>\<open>undefined\<close>.
\<close>

record BatchClient =
  client :: LogFluxClient
  config :: BatchConfig
  batch :: "LogEntry list"
  flushTimer :: bool
  stopped :: bool
  exitHandlers :: bool
  stats :: BatchStats
  consecutiveFailures :: nat
  nextRetryDelay :: rat
  circuitOpen :: bool
  circuitOpenTime :: "int option"

text \<open>
  What the outside world contributes to one call of \<^verbatim>\<open>flush\<close>: the clock reading of
  \<^verbatim>\<open>isCircuitOpen\<close>, the behaviour of the network during \<^verbatim>\<open>sendLogBatch\<close>, and the clock
  reading taken once the send has settled (\<^verbatim>\<open>new Date()\<close> after a success, \<^verbatim>\<open>Date.now()\<close>
  in \<^verbatim>\<open>openCircuit\<close> after a failure).
\<close>

record env =
  clock_gate :: int
  transport :: net
  clock_done :: int

text \<open>
  What a call does to the outside world, in order: a call of \<^verbatim>\<open>client.sendLogBatch\<close> with
  the entries it carries and the error it was rejected with (\<open>None\<close> when it resolved),
  the socket operations made inside a client call, the call of \<^verbatim>\<open>client.close\<close>, and the
  console lines. \<open>CircuitDrop es\<close> is the warning
  \<^verbatim>\<open>Circuit breaker open, dropped ${droppedCount} log entries\<close> of the branch that discards
  the entries \<open>es\<close>; the line itself carries only \<open>length es\<close>.
\<close>

datatype effect =
    SendLogBatch "LogEntry list" "error option"
  | Net io
  | CloseClient
  | CircuitDrop "LogEntry list"
  | ErrorDuringStop error
  | ErrorDuringTimerFlush error

type_synonym 'a batch_result = "(error + 'a) \<times> BatchClient \<times> effect list"

definition nullish :: "'a option \<Rightarrow> 'a \<Rightarrow> 'a" where
  "nullish x d = (case x of None \<Rightarrow> d | Some v \<Rightarrow> v)"

text \<open>The constructor; its first test, for a missing client, cannot fail on a value of the
  type \<open>LogFluxClient\<close>. It starts the timer and, when \<^verbatim>\<open>flushOnExit\<close> is set, registers the
  exit handlers.\<close>

definition newBatchClient :: "LogFluxClient \<Rightarrow> BatchConfig option \<Rightarrow> error + BatchClient" where
  "newBatchClient c batchConfig =
     (let cfg = nullish batchConfig createDefaultBatchConfig
      in case validateBatchConfig cfg of
           Inl e \<Rightarrow> Inl e
         | Inr _ \<Rightarrow>
             Inr \<lparr> client = c,
                   config = cfg,
                   batch = [],
                   flushTimer = True,
                   stopped = False,
                   exitHandlers = flushOnExit cfg,
                   stats = \<lparr> entriesProcessed = 0, batchesSent = 0, errors = 0,
                             averageBatchSize = 0, lastFlushTime = None \<rparr>,
                   consecutiveFailures = 0,
                   nextRetryDelay = nullish (initialRetryDelay cfg) 1000,
                   circuitOpen = False,
                   circuitOpenTime = None \<rparr>)"

subsection \<open>Memory estimate\<close>

text \<open>The body of the outer \<^verbatim>\<open>for\<close> loop of \<^verbatim>\<open>getEstimatedMemoryUsage\<close>, on the running
  \<^verbatim>\<open>totalSize\<close>; the inner loop runs over \<^verbatim>\<open>Object.entries(entry.metadata)\<close>.\<close>

definition add_entry_size :: "nat \<Rightarrow> LogEntry \<Rightarrow> nat" where
  "add_entry_size totalSize entry =
     (let t1 = totalSize + 200;
          t2 = t1 + byteLength_utf8 (payload entry)
      in case metadata entry of
           None \<Rightarrow> t2
         | Some kvs \<Rightarrow> foldl (\<lambda>t (key, val). t + byteLength_utf8 (key @ val)) t2 kvs)"

definition getEstimatedMemoryUsage :: "BatchClient \<Rightarrow> nat" where
  "getEstimatedMemoryUsage s = foldl add_entry_size 0 (batch s)"

subsection \<open>Backoff and circuit breaker\<close>

definition calculateNextRetryDelay :: "BatchClient \<Rightarrow> BatchClient" where
  "calculateNextRetryDelay s =
     (let multiplier = nullish (retryBackoffMultiplier (config s)) 2;
          maxDelay = nullish (maxRetryDelay (config s)) 60000
      in s\<lparr>nextRetryDelay := min (nextRetryDelay s * multiplier) maxDelay\<rparr>)"

definition updateAverageBatchSize :: "nat \<Rightarrow> BatchClient \<Rightarrow> BatchClient" where
  "updateAverageBatchSize size_of_batch s =
     (let totalEntries =
            averageBatchSize (stats s) * (of_nat (batchesSent (stats s)) - 1) + of_nat size_of_batch
      in s\<lparr>stats := (stats s)\<lparr>averageBatchSize :=
                                  totalEntries / of_nat (batchesSent (stats s))\<rparr>\<rparr>)"

text \<open>\<^verbatim>\<open>isCircuitOpen\<close> returns a boolean and may reset the two circuit fields.
  \<^verbatim>\<open>this.circuitOpenTime && ...\<close> is a truthiness test: it fails for \<^verbatim>\<open>undefined\<close> and for
  the number \<open>0\<close>.\<close>

definition isCircuitOpen :: "int \<Rightarrow> BatchClient \<Rightarrow> bool \<times> BatchClient" where
  "isCircuitOpen now s =
     (if \<not> circuitOpen s then (False, s)
      else
        let openTimeout = nullish (circuitBreakerOpenTimeout (config s)) 10000
        in if (case circuitOpenTime s of
                 None \<Rightarrow> False
               | Some t \<Rightarrow> t \<noteq> 0 \<and> of_int (now - t) \<ge> openTimeout)
           then (False, s\<lparr>circuitOpen := False, circuitOpenTime := None\<rparr>)
           else (True, s))"

definition openCircuit :: "int \<Rightarrow> BatchClient \<Rightarrow> BatchClient" where
  "openCircuit now s =
     (let threshold = nullish (circuitBreakerFailureThreshold (config s)) 5
      in if of_nat (consecutiveFailures s) \<ge> threshold
         then s\<lparr>circuitOpen := True, circuitOpenTime := Some now\<rparr>
         else s)"

subsection \<open>flush\<close>

text \<open>The statements of the \<^verbatim>\<open>try\<close> block after the \<^verbatim>\<open>await\<close>, and the \<^verbatim>\<open>catch\<close> block,
  each on the state in which it starts; \<open>batchToSend\<close> is the copy taken before the
  send.\<close>

definition flush_succeeded :: "int \<Rightarrow> LogEntry list \<Rightarrow> BatchClient \<Rightarrow> BatchClient" where
  "flush_succeeded now batchToSend s =
     (let s1 = s\<lparr>consecutiveFailures := 0,
                 nextRetryDelay := nullish (initialRetryDelay (config s)) 1000\<rparr>;
          s2 = s1\<lparr>stats := (stats s1)\<lparr>batchesSent := batchesSent (stats s1) + 1\<rparr>\<rparr>;
          s3 = s2\<lparr>stats := (stats s2)\<lparr>lastFlushTime := Some now\<rparr>\<rparr>
      in updateAverageBatchSize (length batchToSend) s3)"

definition flush_failed :: "int \<Rightarrow> LogEntry list \<Rightarrow> BatchClient \<Rightarrow> BatchClient" where
  "flush_failed now batchToSend s =
     (let s1 = s\<lparr>stats := (stats s)\<lparr>errors := errors (stats s) + 1\<rparr>\<rparr>;
          s2 = s1\<lparr>consecutiveFailures := consecutiveFailures s1 + 1\<rparr>;
          s3 = calculateNextRetryDelay s2;
          s4 = openCircuit now s3
      in s4\<lparr>batch := batchToSend @ batch s4\<rparr>)"

definition flush :: "env \<Rightarrow> BatchClient \<Rightarrow> unit batch_result" where
  "flush ev s =
     (if length (batch s) = 0 then (Inr (), s, [])
      else
        (case isCircuitOpen (clock_gate ev) s of
           (True, s1) \<Rightarrow> (Inr (), s1\<lparr>batch := []\<rparr>, [CircuitDrop (batch s1)])
         | (False, s1) \<Rightarrow>
             (let batchToSend = batch s1;
                  s2 = s1\<lparr>batch := []\<rparr>
              in case sendLogBatch (transport ev) \<lparr>version = None, entries = batchToSend\<rparr>
                        (client s2) of
                   (Inr _, c, ios) \<Rightarrow>
                     (Inr (),
                      flush_succeeded (clock_done ev) batchToSend (s2\<lparr>client := c\<rparr>),
                      SendLogBatch batchToSend None # map Net ios)
                 | (Inl e, c, ios) \<Rightarrow>
                     (Inl e,
                      flush_failed (clock_done ev) batchToSend (s2\<lparr>client := c\<rparr>),
                      SendLogBatch batchToSend (Some e) # map Net ios))))"

subsection \<open>addLogEntry, stop and the timer\<close>

definition addLogEntry :: "env \<Rightarrow> LogEntry \<Rightarrow> BatchClient \<Rightarrow> unit batch_result" where
  "addLogEntry ev entry s =
     (if stopped s then (Inl ClientStopped, s, [])
      else
        let s1 = s\<lparr>batch := batch s @ [entry]\<rparr>;
            s2 = s1\<lparr>stats := (stats s1)\<lparr>entriesProcessed := entriesProcessed (stats s1) + 1\<rparr>\<rparr>
        in if of_nat (length (batch s2)) \<ge> maxBatchSize (config s2) then flush ev s2
           else if of_nat (getEstimatedMemoryUsage s2) \<ge> maxMemoryUsage (config s2)
             then flush ev s2
           else (Inr (), s2, []))"

definition stop :: "env \<Rightarrow> BatchClient \<Rightarrow> unit batch_result" where
  "stop ev s =
     (let s1 = s\<lparr>stopped := True\<rparr>;
          s2 = s1\<lparr>flushTimer := False\<rparr>;
          s3 = s2\<lparr>exitHandlers := False\<rparr>
      in case (if length (batch s3) > 0
               then (case flush ev s3 of
                       (Inl e, s4, tr) \<Rightarrow> (s4, tr @ [ErrorDuringStop e])
                     | (Inr _, s4, tr) \<Rightarrow> (s4, tr))
               else (s3, [])) of
           (s4, tr) \<Rightarrow>
             (case close (client s4) of
                (c, ios) \<Rightarrow> (Inr (), s4\<lparr>client := c\<rparr>, tr @ CloseClient # map Net ios)))"

text \<open>The callback of the timer set by \<^verbatim>\<open>startFlushTimer\<close>, when it fires while the timer
  has not been cancelled: the flush is started when the client runs and has entries, a
  rejection is logged and counted, and the timer is set again unless stopped.\<close>

definition timerFires :: "env \<Rightarrow> BatchClient \<Rightarrow> BatchClient \<times> effect list" where
  "timerFires ev s =
     (if \<not> flushTimer s then (s, [])
      else if \<not> stopped s \<and> length (batch s) > 0
        then (case flush ev s of
                (Inl e, s1, tr) \<Rightarrow>
                  (s1\<lparr>stats := (stats s1)\<lparr>errors := errors (stats s1) + 1\<rparr>\<rparr>,
                   tr @ [ErrorDuringTimerFlush e])
              | (Inr _, s1, tr) \<Rightarrow> (s1, tr))
      else (s, []))"

subsection \<open>Histories\<close>

text \<open>A history of a client is a list of calls, each with what the outside world does
  during it; \<open>run\<close> performs them in order and collects the effects.\<close>

datatype op =
    Add env LogEntry
  | Flush env
  | Timer env
  | Stop env

fun step :: "op \<Rightarrow> BatchClient \<Rightarrow> BatchClient \<times> effect list" where
  "step (Add ev entry) s = (case addLogEntry ev entry s of (_, s1, tr) \<Rightarrow> (s1, tr))"
| "step (Flush ev) s = (case flush ev s of (_, s1, tr) \<Rightarrow> (s1, tr))"
| "step (Timer ev) s = timerFires ev s"
| "step (Stop ev) s = (case stop ev s of (_, s1, tr) \<Rightarrow> (s1, tr))"

fun run :: "op list \<Rightarrow> BatchClient \<Rightarrow> BatchClient \<times> effect list" where
  "run [] s = (s, [])"
| "run (x # xs) s =
     (case step x s of
        (s1, tr1) \<Rightarrow> (case run xs s1 of (s2, tr2) \<Rightarrow> (s2, tr1 @ tr2)))"

text \<open>The entries that the \<^verbatim>\<open>addLogEntry\<close> calls of a history push, in call order
  (\<open>halted\<close> tells whether the client is stopped when the history starts); the entries of
  the successful sends of a trace, in send order; the entries that left the buffer, by
  a successful send or by a circuit-breaker drop.\<close>

fun accepted :: "bool \<Rightarrow> op list \<Rightarrow> LogEntry list" where
  "accepted halted [] = []"
| "accepted halted (Add ev entry # xs) = (if halted then [] else [entry]) @ accepted halted xs"
| "accepted halted (Stop ev # xs) = accepted True xs"
| "accepted halted (Flush ev # xs) = accepted halted xs"
| "accepted halted (Timer ev # xs) = accepted halted xs"

fun delivered :: "effect list \<Rightarrow> LogEntry list" where
  "delivered [] = []"
| "delivered (SendLogBatch es None # tr) = es @ delivered tr"
| "delivered (_ # tr) = delivered tr"

fun dropped :: "effect list \<Rightarrow> LogEntry list" where
  "dropped [] = []"
| "dropped (CircuitDrop es # tr) = es @ dropped tr"
| "dropped (_ # tr) = dropped tr"

fun departed :: "effect list \<Rightarrow> LogEntry list" where
  "departed [] = []"
| "departed (SendLogBatch es None # tr) = es @ departed tr"
| "departed (CircuitDrop es # tr) = es @ departed tr"
| "departed (_ # tr) = departed tr"

text \<open>The calls of \<^verbatim>\<open>client.sendLogBatch\<close> in a trace, and whether none of them was
  rejected.\<close>

fun send_calls :: "effect list \<Rightarrow> effect list" where
  "send_calls [] = []"
| "send_calls (SendLogBatch es r # tr) = SendLogBatch es r # send_calls tr"
| "send_calls (_ # tr) = send_calls tr"

fun no_rejection :: "effect list \<Rightarrow> bool" where
  "no_rejection [] = True"
| "no_rejection (SendLogBatch es (Some e) # tr) = False"
| "no_rejection (_ # tr) = no_rejection tr"

fun net_effects :: "effect list \<Rightarrow> io list" where
  "net_effects [] = []"
| "net_effects (Net a # tr) = a # net_effects tr"
| "net_effects (_ # tr) = net_effects tr"

subsection \<open>Calls that overlap\<close>

text \<open>
  \<^verbatim>\<open>flush\<close> is an \<^verbatim>\<open>async\<close> function. Its first half runs within the call: the test for
  an empty buffer, the gate of the circuit breaker, the copy of the buffer into
  \<^verbatim>\<open>batchToSend\<close> and the emptying of the buffer, up to the call of
  \<^verbatim>\<open>this.client.sendLogBatch\<close>. Its second half, the rest of the \<^verbatim>\<open>try\<close> block or the
  \<^verbatim>\<open>catch\<close> block, runs when the promise of the send has settled, on the object as it is
  by then. \<open>flush_begin\<close> is the first half and tells how it ended; \<open>flush_settle\<close> is the
  second half. The work of the transport client for the call is done in one piece
  when the call settles.
\<close>

datatype begun = Idle | Dropping "LogEntry list" | Sending "LogEntry list"

definition flush_begin :: "int \<Rightarrow> BatchClient \<Rightarrow> BatchClient \<times> begun" where
  "flush_begin now s =
     (if length (batch s) = 0 then (s, Idle)
      else
        (case isCircuitOpen now s of
           (True, s1) \<Rightarrow> (s1\<lparr>batch := []\<rparr>, Dropping (batch s1))
         | (False, s1) \<Rightarrow> (s1\<lparr>batch := []\<rparr>, Sending (batch s1))))"

definition flush_settle :: "net \<Rightarrow> int \<Rightarrow> LogEntry list \<Rightarrow> BatchClient \<Rightarrow> unit batch_result" where
  "flush_settle n now batchToSend s =
     (case sendLogBatch n \<lparr>version = None, entries = batchToSend\<rparr> (client s) of
        (Inr _, c, ios) \<Rightarrow>
          (Inr (), flush_succeeded now batchToSend (s\<lparr>client := c\<rparr>),
           SendLogBatch batchToSend None # map Net ios)
      | (Inl e, c, ios) \<Rightarrow>
          (Inl e, flush_failed now batchToSend (s\<lparr>client := c\<rparr>),
           SendLogBatch batchToSend (Some e) # map Net ios))"

text \<open>
  The code that awaits the promise of \<^verbatim>\<open>flush()\<close> resumes after it: the caller of
  \<^verbatim>\<open>flush\<close> or \<^verbatim>\<open>addLogEntry\<close>, which does nothing to the object; the \<^verbatim>\<open>catch\<close> of the
  timer, which counts an error; the rest of \<^verbatim>\<open>stop\<close>, which logs an error and closes
  the client. A task is a flush suspended at its send, with its \<^verbatim>\<open>batchToSend\<close>, or a
  flush that has settled, with its error if any, whose awaiting code has not resumed
  yet. An engine is the object together with its tasks.
\<close>

datatype waiter = Caller | TimerCatch | StopTail

datatype task = InFlight "LogEntry list" waiter | Settled "error option" waiter

record engine =
  obj :: BatchClient
  tasks :: "task list"

definition at_rest :: "BatchClient \<Rightarrow> engine" where
  "at_rest s = \<lparr> obj = s, tasks = [] \<rparr>"

definition without :: "nat \<Rightarrow> 'a list \<Rightarrow> 'a list" where
  "without i xs = take i xs @ drop (Suc i) xs"

definition start_flush :: "int \<Rightarrow> waiter \<Rightarrow> engine \<Rightarrow> engine \<times> effect list" where
  "start_flush now w g =
     (case flush_begin now (obj g) of
        (s1, Idle) \<Rightarrow> (g\<lparr>obj := s1, tasks := tasks g @ [Settled None w]\<rparr>, [])
      | (s1, Dropping es) \<Rightarrow>
          (g\<lparr>obj := s1, tasks := tasks g @ [Settled None w]\<rparr>, [CircuitDrop es])
      | (s1, Sending bs) \<Rightarrow> (g\<lparr>obj := s1, tasks := tasks g @ [InFlight bs w]\<rparr>, []))"

definition close_client :: "BatchClient \<Rightarrow> BatchClient \<times> effect list" where
  "close_client s =
     (case close (client s) of (c, ios) \<Rightarrow> (s\<lparr>client := c\<rparr>, CloseClient # map Net ios))"

definition resume :: "error option \<Rightarrow> waiter \<Rightarrow> BatchClient \<Rightarrow> BatchClient \<times> effect list" where
  "resume r w s =
     (case w of
        Caller \<Rightarrow> (s, [])
      | TimerCatch \<Rightarrow>
          (case r of
             None \<Rightarrow> (s, [])
           | Some e \<Rightarrow>
               (s\<lparr>stats := (stats s)\<lparr>errors := errors (stats s) + 1\<rparr>\<rparr>,
                [ErrorDuringTimerFlush e]))
      | StopTail \<Rightarrow>
          (case close_client s of
             (s1, tr) \<Rightarrow> (s1, (case r of None \<Rightarrow> [] | Some e \<Rightarrow> [ErrorDuringStop e]) @ tr)))"

text \<open>
  What can happen to an engine: a call of \<^verbatim>\<open>addLogEntry\<close>, \<^verbatim>\<open>flush\<close> or \<^verbatim>\<open>stop\<close>, or the
  timer firing, each with the clock reading of the gate and each run up to its first
  suspension; the send of the task at a position settling, with what the network did
  and the clock reading afterwards; the awaiting code of a settled task resuming.
  An \<^verbatim>\<open>addLogEntry\<close> on a stopped client is rejected and changes nothing.
\<close>

datatype event =
    CallAdd int LogEntry
  | CallFlush int
  | TimerFires int
  | CallStop int
  | Settle nat net int
  | Resume nat

fun occur :: "event \<Rightarrow> engine \<Rightarrow> engine \<times> effect list" where
  "occur (CallAdd now entry) g =
     (let s = obj g
      in if stopped s then (g, [])
         else
           let s1 = s\<lparr>batch := batch s @ [entry]\<rparr>;
               s2 = s1\<lparr>stats := (stats s1)\<lparr>entriesProcessed :=
                                               entriesProcessed (stats s1) + 1\<rparr>\<rparr>;
               g2 = g\<lparr>obj := s2\<rparr>
           in if of_nat (length (batch s2)) \<ge> maxBatchSize (config s2)
                then start_flush now Caller g2
              else if of_nat (getEstimatedMemoryUsage s2) \<ge> maxMemoryUsage (config s2)
                then start_flush now Caller g2
              else (g2, []))"
| "occur (CallFlush now) g = start_flush now Caller g"
| "occur (TimerFires now) g =
     (let s = obj g
      in if \<not> flushTimer s then (g, [])
         else if \<not> stopped s \<and> length (batch s) > 0 then start_flush now TimerCatch g
         else (g, []))"
| "occur (CallStop now) g =
     (let s = obj g;
          s1 = s\<lparr>stopped := True\<rparr>;
          s2 = s1\<lparr>flushTimer := False\<rparr>;
          s3 = s2\<lparr>exitHandlers := False\<rparr>
      in if length (batch s3) > 0 then start_flush now StopTail (g\<lparr>obj := s3\<rparr>)
         else (case close_client s3 of (s4, tr) \<Rightarrow> (g\<lparr>obj := s4\<rparr>, tr)))"
| "occur (Settle i n now) g =
     (if i < length (tasks g)
      then (case tasks g ! i of
              InFlight bs w \<Rightarrow>
                (case flush_settle n now bs (obj g) of
                   (r, s1, tr) \<Rightarrow>
                     (g\<lparr>obj := s1,
                        tasks := without i (tasks g) @
                                 [Settled (case r of Inl e \<Rightarrow> Some e | Inr _ \<Rightarrow> None) w]\<rparr>,
                      tr))
            | Settled r w \<Rightarrow> (g, []))
      else (g, []))"
| "occur (Resume i) g =
     (if i < length (tasks g)
      then (case tasks g ! i of
              InFlight bs w \<Rightarrow> (g, [])
            | Settled r w \<Rightarrow>
                (case resume r w (obj g) of
                   (s1, tr) \<Rightarrow> (g\<lparr>obj := s1, tasks := without i (tasks g)\<rparr>, tr)))
      else (g, []))"

fun play :: "event list \<Rightarrow> engine \<Rightarrow> engine \<times> effect list" where
  "play [] g = (g, [])"
| "play (x # xs) g =
     (case occur x g of
        (g1, tr1) \<Rightarrow> (case play xs g1 of (g2, tr2) \<Rightarrow> (g2, tr1 @ tr2)))"

text \<open>The entries of the flushes in flight, in the order in which the flushes began; the
  number of flushes in flight; whether a schedule never has two flushes in flight at
  the same time; whether a schedule settles no send; the entries that the
  \<^verbatim>\<open>addLogEntry\<close> calls of a schedule push.\<close>

fun cargo :: "task \<Rightarrow> LogEntry list" where
  "cargo (InFlight bs w) = bs"
| "cargo (Settled r w) = []"

fun is_flight :: "task \<Rightarrow> bool" where
  "is_flight (InFlight bs w) = True"
| "is_flight (Settled r w) = False"

definition in_flight :: "engine \<Rightarrow> LogEntry list" where
  "in_flight g = concat (map cargo (tasks g))"

definition flights :: "engine \<Rightarrow> nat" where
  "flights g = length (filter is_flight (tasks g))"

fun one_at_a_time :: "event list \<Rightarrow> engine \<Rightarrow> bool" where
  "one_at_a_time [] g = (flights g \<le> 1)"
| "one_at_a_time (x # xs) g = (flights g \<le> 1 \<and> one_at_a_time xs (fst (occur x g)))"


fun taken :: "bool \<Rightarrow> event list \<Rightarrow> LogEntry list" where
  "taken halted [] = []"
| "taken halted (CallAdd now entry # xs) = (if halted then [] else [entry]) @ taken halted xs"
| "taken halted (CallStop now # xs) = taken True xs"
| "taken halted (_ # xs) = taken halted xs"

text \<open>A call of the first kind as a schedule: the call, then its send settling, then
  the awaiting code resuming, with nothing in between.\<close>

fun unroll :: "op \<Rightarrow> event list" where
  "unroll (Add ev entry) = [CallAdd (clock_gate ev) entry, Settle 0 (transport ev) (clock_done ev), Resume 0]"
| "unroll (Flush ev) = [CallFlush (clock_gate ev), Settle 0 (transport ev) (clock_done ev), Resume 0]"
| "unroll (Timer ev) = [TimerFires (clock_gate ev), Settle 0 (transport ev) (clock_done ev), Resume 0]"
| "unroll (Stop ev) = [CallStop (clock_gate ev), Settle 0 (transport ev) (clock_done ev), Resume 0]"

section \<open>Derived notions used in the statements\<close>

text \<open>The connection is usable for the exchange: an already connected client holds a
  socket, a client not yet connected gets one from a successful \<^verbatim>\<open>connect\<close>.\<close>

definition link_ready :: "net \<Rightarrow> LogFluxClient \<Rightarrow> bool" where
  "link_ready n c = (if connected c then socket c else fst (connect n c) = Inr ())"

text \<open>The read delivers a JSON object whose \<open>status\<close> is the wanted string.\<close>

definition answered :: "string \<Rightarrow> net \<Rightarrow> bool" where
  "answered want n =
     (case response n of
        DataParsed (JObject kvs) \<Rightarrow> map_of (rev kvs) ''status'' = Some (JString want)
      | _ \<Rightarrow> False)"

text \<open>The two components of the result of \<^verbatim>\<open>isCircuitOpen\<close>: what it returns and the
  state it leaves.\<close>

definition gate_blocks :: "int \<Rightarrow> BatchClient \<Rightarrow> bool" where
  "gate_blocks now s = fst (isCircuitOpen now s)"

definition gate_passed :: "int \<Rightarrow> BatchClient \<Rightarrow> BatchClient" where
  "gate_passed now s = snd (isCircuitOpen now s)"

text \<open>The \<^verbatim>\<open>LogBatch\<close> that \<^verbatim>\<open>flush\<close> builds from the pending entries.\<close>

definition outgoing :: "BatchClient \<Rightarrow> LogBatch" where
  "outgoing s = \<lparr>version = None, entries = batch s\<rparr>"

text \<open>The size of one entry and of a list of entries in the words of the
  specification: a fixed overhead of 200 bytes, the byte length of the payload, and the
  byte lengths of every metadata key and value.\<close>

definition spec_entry_size :: "LogEntry \<Rightarrow> nat" where
  "spec_entry_size x =
     200 + byteLength_utf8 (payload x) +
     (case metadata x of
        None \<Rightarrow> 0
      | Some kvs \<Rightarrow> (\<Sum>(k, v)\<leftarrow>kvs. byteLength_utf8 k + byteLength_utf8 v))"

definition spec_memory_estimate :: "LogEntry list \<Rightarrow> nat" where
  "spec_memory_estimate es = (\<Sum>x\<leftarrow>es. spec_entry_size x)"

text \<open>The same sums with each metadata key measured together with its value, as
  \<^verbatim>\<open>Buffer.byteLength(key + value, 'utf8')\<close> does. The two ways of measuring differ
  exactly when the concatenation joins two surrogate halves into a pair, that is when
  the key ends with a high surrogate and the value begins with a low one.\<close>

definition entry_size :: "LogEntry \<Rightarrow> nat" where
  "entry_size x =
     200 + byteLength_utf8 (payload x) +
     (case metadata x of
        None \<Rightarrow> 0
      | Some kvs \<Rightarrow> (\<Sum>(k, v)\<leftarrow>kvs. byteLength_utf8 (k @ v)))"

definition memory_estimate :: "LogEntry list \<Rightarrow> nat" where
  "memory_estimate es = (\<Sum>x\<leftarrow>es. entry_size x)"

definition joins_halves :: "jsstring \<Rightarrow> jsstring \<Rightarrow> bool" where
  "joins_halves k v = (k \<noteq> [] \<and> v \<noteq> [] \<and> is_high (last k) \<and> is_low (hd v))"

definition splits_no_pair :: "LogEntry \<Rightarrow> bool" where
  "splits_no_pair x =
     (case metadata x of
        None \<Rightarrow> True
      | Some kvs \<Rightarrow> list_all (\<lambda>(k, v). \<not> joins_halves k v) kvs)"

text \<open>The state of \<^verbatim>\<open>addLogEntry\<close> after \<^verbatim>\<open>this.batch.push(entry)\<close> and
  \<^verbatim>\<open>this.stats.entriesProcessed++\<close>.\<close>

definition pushed :: "LogEntry \<Rightarrow> BatchClient \<Rightarrow> BatchClient" where
  "pushed x s =
     s\<lparr>batch := batch s @ [x],
       stats := (stats s)\<lparr>entriesProcessed := entriesProcessed (stats s) + 1\<rparr>\<rparr>"

text \<open>The fields that the backoff controller and the circuit breaker read and write.\<close>

definition ctl :: "BatchClient \<Rightarrow> BatchConfig \<times> nat \<times> rat \<times> bool \<times> int option" where
  "ctl s = (config s, consecutiveFailures s, nextRetryDelay s, circuitOpen s, circuitOpenTime s)"

text \<open>The effective parameters, after the defaults of \<^verbatim>\<open>batch.ts\<close> are applied.\<close>

definition initial_delay :: "BatchConfig \<Rightarrow> rat" where
  "initial_delay cfg = nullish (initialRetryDelay cfg) 1000"

definition max_delay :: "BatchConfig \<Rightarrow> rat" where
  "max_delay cfg = nullish (maxRetryDelay cfg) 60000"

definition multiplier :: "BatchConfig \<Rightarrow> rat" where
  "multiplier cfg = nullish (retryBackoffMultiplier cfg) 2"

definition failure_threshold :: "BatchConfig \<Rightarrow> rat" where
  "failure_threshold cfg = nullish (circuitBreakerFailureThreshold cfg) 5"


text \<open>A flush that handed the pending entries to \<^verbatim>\<open>sendLogBatch\<close> and saw the call
  resolve.\<close>

definition flush_sends :: "env \<Rightarrow> BatchClient \<Rightarrow> bool" where
  "flush_sends ev s =
     (send_calls (snd (snd (flush ev s))) = [SendLogBatch (batch s) None])"

text \<open>The invariants of the backoff delay and of the circuit breaker, on \<open>ctl\<close>.\<close>

definition backoff_inv ::
  "BatchConfig \<Rightarrow> BatchConfig \<times> nat \<times> rat \<times> bool \<times> int option \<Rightarrow> bool" where
  "backoff_inv k0 = (\<lambda>(k, cf, d, opn, t). k = k0 \<and> 0 < d \<and> d \<le> max_delay k0)"

definition circuit_inv :: "BatchConfig \<times> nat \<times> rat \<times> bool \<times> int option \<Rightarrow> bool" where
  "circuit_inv = (\<lambda>(k, cf, d, opn, t). opn \<longrightarrow> of_nat cf \<ge> failure_threshold k \<and> t \<noteq> None)"

section \<open>Sample values\<close>

text \<open>Concrete clients, entries and environments, used to run the definitions.\<close>

definition unix_client :: LogFluxClient where
  "unix_client = \<lparr> LogFluxClient.config = createDefaultConfig, socket = False, connected = False \<rparr>"

definition tcp_config :: "string option \<Rightarrow> Config" where
  "tcp_config secret =
     createDefaultConfig \<lparr> network := TCP, address := units ''localhost:8080'',
                            sharedSecret := secret \<rparr>"

definition tcp_client :: "string option \<Rightarrow> LogFluxClient" where
  "tcp_client secret = \<lparr> LogFluxClient.config = tcp_config secret, socket = False, connected = False \<rparr>"

definition entry :: "string \<Rightarrow> LogEntry" where
  "entry text =
     \<lparr> LogEntry.version = Some DEFAULT_PROTOCOL_VERSION, payload = units text,
       source = ''app'',
       timestamp = None, payloadType = Some ''generic'', metadata = Some [],
       entryType = 1, logLevel = 7 \<rparr>"

definition net_up :: net where
  "net_up = \<lparr> pathExists = True, handshake = ConnectEvent, written = WriteDone,
              response = DataParsed (JObject [(''status'', JString ''pong'')]) \<rparr>"

definition net_down :: net where
  "net_down = \<lparr> pathExists = False, handshake = ErrorEvent, written = WriteFailed,
                response = ReadTimer \<rparr>"

definition up_at :: "int \<Rightarrow> env" where
  "up_at t = \<lparr> clock_gate = t, transport = net_up, clock_done = t \<rparr>"

definition down_at :: "int \<Rightarrow> env" where
  "down_at t = \<lparr> clock_gate = t, transport = net_down, clock_done = t \<rparr>"

text \<open>A client whose circuit opens at the first failure and stays open for 100 ms, as
  in the recovery test of the repository.\<close>

definition touchy_config :: BatchConfig where
  "touchy_config =
     \<lparr> maxBatchSize = 5, flushInterval = 1000, maxMemoryUsage = 1024, flushOnExit = False,
       initialRetryDelay = None, maxRetryDelay = None, retryBackoffMultiplier = None,
       circuitBreakerFailureThreshold = Some 1, circuitBreakerOpenTimeout = Some 100 \<rparr>"

definition touchy :: BatchClient where
  "touchy =
     \<lparr> client = unix_client, config = touchy_config, batch = [], flushTimer = True,
       stopped = False, exitHandlers = False,
       stats = \<lparr> entriesProcessed = 0, batchesSent = 0, errors = 0,
                 averageBatchSize = 0, lastFlushTime = None \<rparr>,
       consecutiveFailures = 0, nextRetryDelay = 1000, circuitOpen = False,
       circuitOpenTime = None \<rparr>"

text \<open>An agent that grants the authentication request, and one that refuses it.\<close>

definition net_granting :: net where
  "net_granting = net_up\<lparr>response := DataParsed (JObject [(''status'', JString ''success''),
                                    (''message'', JString ''ok'')])\<rparr>"

text \<open>The client of the recovery test after one entry and one failed flush at time
  1000, which opened the circuit; an entry with metadata.\<close>

definition tripped :: BatchClient where
  "tripped =
     touchy\<lparr>batch := [entry ''A''], consecutiveFailures := 1, nextRetryDelay := 2000,
             circuitOpen := True, circuitOpenTime := Some 1000,
             stats := \<lparr> entriesProcessed = 1, batchesSent = 0, errors = 1,
                        averageBatchSize = 0, lastFlushTime = None \<rparr>\<rparr>"

definition tagged_entry :: LogEntry where
  "tagged_entry =
     (entry ''hello'')\<lparr>metadata := Some [(units ''env'', units ''prod''),
                                       (units ''pod'', units ''a1'')]\<rparr>"

text \<open>The client that the constructor builds from the default configuration; the same
  client after 100 entries and one failed flush, which restored them; and the state
  in which the next \<^verbatim>\<open>addLogEntry\<close> calls \<^verbatim>\<open>flush\<close>, with 101 entries pending.\<close>

definition fresh :: BatchClient where
  "fresh =
     \<lparr> client = unix_client, config = createDefaultBatchConfig, batch = [],
       flushTimer = True, stopped = False, exitHandlers = True,
       stats = \<lparr> entriesProcessed = 0, batchesSent = 0, errors = 0,
                 averageBatchSize = 0, lastFlushTime = None \<rparr>,
       consecutiveFailures = 0, nextRetryDelay = 500, circuitOpen = False,
       circuitOpenTime = None \<rparr>"

definition full100 :: BatchClient where
  "full100 =
     fresh\<lparr>batch := replicate 100 (entry ''x''),
            stats := \<lparr> entriesProcessed = 100, batchesSent = 0, errors = 1,
                       averageBatchSize = 0, lastFlushTime = None \<rparr>,
            consecutiveFailures := 1, nextRetryDelay := 1000\<rparr>"

definition overfull :: BatchClient where
  "overfull = pushed (entry ''x'') full100"

text \<open>An entry of 900 bytes of payload.\<close>

definition big_entry :: LogEntry where
  "big_entry = entry (replicate 900 CHR ''a'')"

text \<open>An entry whose only metadata key is a high surrogate and whose value is a low
  surrogate, and a client whose memory limit is 206 bytes.\<close>

definition halves_entry :: LogEntry where
  "halves_entry = (entry ''x'')\<lparr>metadata := Some [([0xD83D], [0xDE00])]\<rparr>"

definition snug :: BatchClient where
  "snug = touchy\<lparr>config := touchy_config\<lparr>maxMemoryUsage := 206\<rparr>\<rparr>"

text \<open>The history of the recovery test with one more entry: an entry is added, the
  flush fails and opens the circuit, a flush 50 ms later drops the entry, a second
  entry is added and flushed successfully after the timeout.\<close>

definition lossy_history :: "op list" where
  "lossy_history =
     [Add (up_at 1) (entry ''A''), Flush (down_at 1000), Flush (up_at 1050),
      Add (up_at 1060) (entry ''B''), Flush (up_at 1100)]"

text \<open>The scenario of the specification: the transport rejects once, then accepts.\<close>

definition retry_history :: "op list" where
  "retry_history =
     [Add (up_at 1) (entry ''A''), Add (up_at 2) (entry ''B''), Flush (down_at 3),
      Add (up_at 4) (entry ''C''), Flush (up_at 5)]"

definition sturdy :: BatchClient where
  "sturdy = touchy\<lparr>config := touchy_config\<lparr>circuitBreakerFailureThreshold := Some 3\<rparr>\<rparr>"


text \<open>An agent whose socket file exists but which refuses the connection; a client
  whose circuit opens at the second failure in a row.\<close>

definition net_refused :: net where
  "net_refused = net_up\<lparr>handshake := ErrorEvent\<rparr>"

definition wary :: BatchClient where
  "wary = touchy\<lparr>config := touchy_config\<lparr>circuitBreakerFailureThreshold := Some 2\<rparr>\<rparr>"

text \<open>Calls that are not awaited. Two entries are added and \<^verbatim>\<open>flush()\<close> is called; while
  its send is in flight a third entry is added and \<^verbatim>\<open>flush()\<close> is called again; both
  sends are refused, in the order in which they began, and a third flush succeeds.\<close>

definition overtaking :: "event list" where
  "overtaking =
     [CallAdd 1 (entry ''A''), CallAdd 2 (entry ''B''), CallFlush 3,
      CallAdd 4 (entry ''C''), CallFlush 5,
      Settle 0 net_refused 6, Settle 0 net_refused 7,
      CallFlush 8, Settle 2 net_up 9]"

text \<open>The same calls with one flush at a time: the third entry is added while the
  first send is in flight, the send is refused, and the next flush succeeds.\<close>

definition patient :: "event list" where
  "patient =
     [CallAdd 1 (entry ''A''), CallAdd 2 (entry ''B''), CallFlush 3,
      CallAdd 4 (entry ''C''), Settle 0 net_refused 5, Resume 0,
      CallFlush 6, Settle 0 net_up 7, Resume 0]"



section \<open>Proofs: the transport client\<close>

lemma settle_handshake_ok:
  "settle_handshake n c = (Inr u, c1, ios) \<Longrightarrow> c1 = c"
  by (auto simp: settle_handshake_def split: handshake_outcome.splits)

lemma connectUnix_ok:
  "connectUnix n c = (Inr u, c1, ios) \<Longrightarrow> c1 = c\<lparr>socket := True\<rparr>"
  by (auto simp: connectUnix_def split: if_splits dest: settle_handshake_ok)

lemma connectTCP_ok:
  "connectTCP n c = (Inr u, c1, ios) \<Longrightarrow> c1 = c\<lparr>socket := True\<rparr>"
  by (auto simp: connectTCP_def split: prod.splits if_splits dest: settle_handshake_ok)

lemma connect_ok:
  assumes "connect n c = (Inr u, c1, ios)" "\<not> connected c"
  shows "c1 = c\<lparr>socket := True, connected := True\<rparr>"
proof (cases "network (LogFluxClient.config c)")
  case Unix
  obtain r c' ios' where k: "connectUnix n c = (r, c', ios')" by (cases "connectUnix n c")
  with assms Unix show ?thesis
    by (cases r) (auto simp: connect_def dest: connectUnix_ok)
next
  case TCP
  obtain r c' ios' where k: "connectTCP n c = (r, c', ios')" by (cases "connectTCP n c")
  with assms TCP show ?thesis
    by (cases r) (auto simp: connect_def dest: connectTCP_ok)
qed

lemma status_is_iff:
  "status_is want j \<longleftrightarrow> (\<exists>kvs. j = JObject kvs \<and> map_of (rev kvs) ''status'' = Some (JString want))"
  by (cases j) (simp_all add: status_is_def)

lemma sendData_eq: "sendData n m c = sendSocket n m c"
  by (simp add: sendData_def split: NetworkType.splits)

lemma exchange_value:
  "fst (exchange n m w c) =
     Inr (socket c \<and> written n = WriteDone \<and> (\<exists>j. response n = DataParsed j \<and> status_is w j))"
  by (cases "written n"; cases "response n")
     (simp_all add: exchange_def sendData_eq sendSocket_def readResponse_def)

lemma ping_fst:
  "fst (ping n c) = (case ensure_connected n c of (Inl e, _, _) \<Rightarrow> Inl e
      | (Inr _, c1, _) \<Rightarrow> fst (exchange n createPingRequest ''pong'' c1))"
  by (simp add: ping_def split: prod.splits sum.splits)

lemma answered_iff: "answered w n \<longleftrightarrow> (\<exists>j. response n = DataParsed j \<and> status_is w j)"
  by (auto simp: answered_def status_is_iff split: read_outcome.splits json.splits)

text \<open>
  \<^bold>\<open>Claim C4\<close> (as amended). \<^verbatim>\<open>ping()\<close> rejects exactly when the client is not yet
  connected and the connection attempt fails, and then with the error of \<^verbatim>\<open>connect\<close>:
  the call of \<^verbatim>\<open>connect\<close> stands before the \<^verbatim>\<open>try\<close> block. Once the client is connected
  (before the call, or by the call) \<^verbatim>\<open>ping()\<close> resolves, and it resolves to \<^verbatim>\<open>true\<close> exactly
  when a socket is held, the write succeeds and the response read is a JSON object
  whose status is \<open>pong\<close>; a send failure, a read timeout and a malformed response all
  give \<^verbatim>\<open>false\<close>.
\<close>

theorem ping_contract:
  "(fst (ping n c) = Inl e \<longleftrightarrow> \<not> connected c \<and> fst (connect n c) = Inl e)
   \<and> (connected c \<or> fst (connect n c) = Inr () \<longrightarrow>
        fst (ping n c) = Inr (link_ready n c \<and> written n = WriteDone \<and> answered ''pong'' n))
   \<and> (fst (ping n c) = Inr True \<longleftrightarrow>
        link_ready n c \<and> written n = WriteDone \<and> answered ''pong'' n)"
proof (cases "connected c")
  case True
  then show ?thesis
    by (simp add: ping_fst ensure_connected_def exchange_value link_ready_def answered_iff)
next
  case False
  obtain r c1 ios where k: "connect n c = (r, c1, ios)" by (cases "connect n c")
  show ?thesis
  proof (cases r)
    case (Inl e')
    with False k show ?thesis
      by (simp add: ping_fst ensure_connected_def link_ready_def)
  next
    case (Inr u)
    with False k connect_ok [of n c u c1 ios] show ?thesis
      by (simp add: ping_fst ensure_connected_def link_ready_def exchange_value answered_iff)
  qed
qed

lemmas unix_connect_defs = ensure_connected_def connect_def connectUnix_def settle_handshake_def
lemmas unix_sample_defs = unix_client_def createDefaultConfig_def net_up_def net_down_def

text \<open>Claim C4 as stated fails: on a fresh Unix-socket client whose socket path does not
  exist, \<^verbatim>\<open>ping()\<close> rejects with the connection error instead of resolving to \<^verbatim>\<open>false\<close>.\<close>

theorem ping_throws_counterexample:
  "fst (ping net_down unix_client) = Inl SocketNotFound"
  by (simp add: ping_def unix_connect_defs unix_sample_defs)

theorem ping_contract_witness:
  "fst (ping net_up unix_client) = Inr True
   \<and> fst (ping (net_up\<lparr>response := ReadTimer\<rparr>) unix_client) = Inr False
   \<and> fst (ping (net_up\<lparr>response := DataMalformed\<rparr>) unix_client) = Inr False
   \<and> fst (ping (net_up\<lparr>written := WriteFailed\<rparr>) unix_client) = Inr False
   \<and> fst (ping net_down (unix_client\<lparr>socket := True, connected := True\<rparr>)) = Inr False"
  using ping_contract [of net_up unix_client]
    ping_contract [of "net_up\<lparr>response := ReadTimer\<rparr>" unix_client]
    ping_contract [of "net_up\<lparr>response := DataMalformed\<rparr>" unix_client]
    ping_contract [of "net_up\<lparr>written := WriteFailed\<rparr>" unix_client]
    ping_contract [of "net_down" "unix_client\<lparr>socket := True, connected := True\<rparr>"]
  by (simp add: link_ready_def answered_def unix_connect_defs unix_sample_defs)

subsection \<open>authenticate\<close>

lemma authenticate_fst:
  assumes "network (LogFluxClient.config c) = TCP"
    and "sharedSecret (LogFluxClient.config c) = Some secret" and "secret \<noteq> []"
  shows "fst (authenticate n c) =
     (case ensure_connected n c of
        (Inl e, _, _) \<Rightarrow> Inl e
      | (Inr _, c1, _) \<Rightarrow>
          fst (exchange n (MAuthRequest (Some DEFAULT_PROTOCOL_VERSION) ''authenticate'' secret)
                 ''success'' c1))"
  using assms
  by (simp add: authenticate_def createAuthRequest_def split: prod.splits sum.splits)

text \<open>
  \<^bold>\<open>Claim C8\<close> (as amended). \<^verbatim>\<open>authenticate()\<close> on a client whose network is not TCP
  resolves to \<^verbatim>\<open>true\<close>, changes nothing and touches no socket. On a TCP client without a
  shared secret (absent or empty) it rejects with the configuration error, again
  before any socket operation. With a secret, it rejects exactly when the client is
  not yet connected and the connection attempt fails (\<^verbatim>\<open>connect\<close> stands before the
  \<^verbatim>\<open>try\<close> block); once connected it resolves, to \<^verbatim>\<open>true\<close> exactly when a socket is held,
  the write succeeds and the response is a JSON object whose status is \<open>success\<close>, and
  to \<^verbatim>\<open>false\<close> on a send, read or parse failure and on any other response.
\<close>

theorem authenticate_contract:
  "(network (LogFluxClient.config c) \<noteq> TCP \<longrightarrow> authenticate n c = (Inr True, c, []))
   \<and> (network (LogFluxClient.config c) = TCP \<and>
        (sharedSecret (LogFluxClient.config c) = None \<or>
         sharedSecret (LogFluxClient.config c) = Some [])
        \<longrightarrow> authenticate n c = (Inl SharedSecretRequired, c, []))
   \<and> (network (LogFluxClient.config c) = TCP \<and>
        sharedSecret (LogFluxClient.config c) = Some secret \<and> secret \<noteq> []
        \<longrightarrow> (fst (authenticate n c) = Inl e \<longleftrightarrow> \<not> connected c \<and> fst (connect n c) = Inl e)
          \<and> (connected c \<or> fst (connect n c) = Inr () \<longrightarrow>
                fst (authenticate n c) =
                  Inr (link_ready n c \<and> written n = WriteDone \<and> answered ''success'' n))
          \<and> (fst (authenticate n c) = Inr True \<longleftrightarrow>
                link_ready n c \<and> written n = WriteDone \<and> answered ''success'' n))"
proof (intro conjI impI)
  assume "network (LogFluxClient.config c) \<noteq> TCP"
  then show "authenticate n c = (Inr True, c, [])" by (simp add: authenticate_def)
next
  assume "network (LogFluxClient.config c) = TCP \<and>
        (sharedSecret (LogFluxClient.config c) = None \<or>
         sharedSecret (LogFluxClient.config c) = Some [])"
  then show "authenticate n c = (Inl SharedSecretRequired, c, [])"
    by (auto simp: authenticate_def)
next
  assume a: "network (LogFluxClient.config c) = TCP \<and>
        sharedSecret (LogFluxClient.config c) = Some secret \<and> secret \<noteq> []"
  note f = authenticate_fst [of c secret n]
  have main:
    "(fst (authenticate n c) = Inl e \<longleftrightarrow> \<not> connected c \<and> fst (connect n c) = Inl e)
     \<and> (connected c \<or> fst (connect n c) = Inr () \<longrightarrow>
          fst (authenticate n c) =
            Inr (link_ready n c \<and> written n = WriteDone \<and> answered ''success'' n))"
  proof (cases "connected c")
    case True
    with a f show ?thesis
      by (simp add: ensure_connected_def exchange_value link_ready_def answered_iff)
  next
    case False
    obtain r c1 ios where k: "connect n c = (r, c1, ios)" by (cases "connect n c")
    show ?thesis
    proof (cases r)
      case (Inl e')
      with False k a f show ?thesis by (simp add: ensure_connected_def link_ready_def)
    next
      case (Inr u)
      with False k a f connect_ok [of n c u c1 ios] show ?thesis
        by (simp add: ensure_connected_def link_ready_def exchange_value answered_iff)
    qed
  qed
  from main show "fst (authenticate n c) = Inl e \<longleftrightarrow> \<not> connected c \<and> fst (connect n c) = Inl e"
    by blast
  from main show "fst (authenticate n c) =
      Inr (link_ready n c \<and> written n = WriteDone \<and> answered ''success'' n)"
    if "connected c \<or> fst (connect n c) = Inr ()" using that by blast
  show "fst (authenticate n c) = Inr True \<longleftrightarrow>
      link_ready n c \<and> written n = WriteDone \<and> answered ''success'' n"
  proof (cases "connected c \<or> fst (connect n c) = Inr ()")
    case True
    with main show ?thesis by simp
  next
    case False
    then obtain e' where "fst (connect n c) = Inl e'" "\<not> connected c"
      by (cases "fst (connect n c)") auto
    with f a show ?thesis
      by (simp add: ensure_connected_def link_ready_def split: prod.splits)
  qed
qed

lemmas tcp_connect_defs = ensure_connected_def connect_def connectTCP_def settle_handshake_def
  tcp_host_port_def parseInt10_def is_space_def is_digit_def digit_val_def units_def
lemmas tcp_sample_defs = tcp_client_def tcp_config_def createDefaultConfig_def net_up_def
  net_down_def

text \<open>Claim C8 as stated fails: a TCP client that has a shared secret and cannot reach
  the agent gets the socket error thrown, not \<^verbatim>\<open>false\<close>.\<close>

theorem authenticate_throws_counterexample:
  "fst (authenticate net_down (tcp_client (Some ''s3cret''))) = Inl SocketError"
  by (simp add: authenticate_def tcp_connect_defs tcp_sample_defs)

definition net_refusing :: net where
  "net_refusing = net_up\<lparr>response := DataParsed (JObject [(''status'', JString ''error''),
                                    (''message'', JString ''bad secret'')])\<rparr>"

theorem authenticate_contract_witness:
  "authenticate net_down unix_client = (Inr True, unix_client, [])
   \<and> authenticate net_up (tcp_client None) = (Inl SharedSecretRequired, tcp_client None, [])
   \<and> fst (authenticate net_granting (tcp_client (Some ''s3cret''))) = Inr True
   \<and> fst (authenticate net_refusing (tcp_client (Some ''s3cret''))) = Inr False
   \<and> fst (authenticate (net_granting\<lparr>response := DataMalformed\<rparr>)
            (tcp_client (Some ''s3cret''))) = Inr False"
  using authenticate_contract [where c = unix_client and n = net_down]
    authenticate_contract [where c = "tcp_client None" and n = net_up]
    authenticate_contract [where c = "tcp_client (Some ''s3cret'')" and secret = "''s3cret''"
       and n = net_granting]
    authenticate_contract [where c = "tcp_client (Some ''s3cret'')" and secret = "''s3cret''"
       and n = net_refusing]
    authenticate_contract [where c = "tcp_client (Some ''s3cret'')" and secret = "''s3cret''"
       and n = "net_granting\<lparr>response := DataMalformed\<rparr>"]
  by (simp add: link_ready_def answered_def tcp_connect_defs tcp_sample_defs unix_client_def
        net_granting_def net_refusing_def)

section \<open>Proofs: the flush step\<close>

lemma gate_blocks_iff:
  "gate_blocks now s \<longleftrightarrow>
     circuitOpen s \<and>
     (case circuitOpenTime s of
        None \<Rightarrow> True
      | Some t \<Rightarrow> t = 0 \<or> of_int (now - t) < nullish (circuitBreakerOpenTimeout (config s)) 10000)"
  by (auto simp: gate_blocks_def isCircuitOpen_def Let_def split: option.splits)

lemma gate_passed_eq:
  "gate_passed now s =
     (if circuitOpen s \<and> \<not> gate_blocks now s
      then s\<lparr>circuitOpen := False, circuitOpenTime := None\<rparr> else s)"
  by (auto simp: gate_blocks_def gate_passed_def isCircuitOpen_def Let_def split: option.splits)

lemma isCircuitOpen_eq: "isCircuitOpen now s = (gate_blocks now s, gate_passed now s)"
  by (simp add: gate_blocks_def gate_passed_def)

lemma gate_passed_fields [simp]:
  "batch (gate_passed now s) = batch s"
  "client (gate_passed now s) = client s"
  "config (gate_passed now s) = config s"
  "stats (gate_passed now s) = stats s"
  "stopped (gate_passed now s) = stopped s"
  "flushTimer (gate_passed now s) = flushTimer s"
  "exitHandlers (gate_passed now s) = exitHandlers s"
  "consecutiveFailures (gate_passed now s) = consecutiveFailures s"
  "nextRetryDelay (gate_passed now s) = nextRetryDelay s"
  by (simp_all add: gate_passed_eq)

lemma gate_passed_closed: "\<not> gate_blocks now s \<Longrightarrow> \<not> circuitOpen (gate_passed now s)"
  by (simp add: gate_passed_eq)

lemma flush_cases [case_names empty dropped sent rejected]:
  obtains
    (empty) "batch s = []" "flush ev s = (Inr (), s, [])"
  | (dropped) "batch s \<noteq> []" "gate_blocks (clock_gate ev) s"
      "flush ev s = (Inr (), s\<lparr>batch := []\<rparr>, [CircuitDrop (batch s)])"
  | (sent) c ios where "batch s \<noteq> []" "\<not> gate_blocks (clock_gate ev) s"
      "sendLogBatch (transport ev) (outgoing s) (client s) = (Inr (), c, ios)"
      "flush ev s =
         (Inr (),
          flush_succeeded (clock_done ev) (batch s)
            ((gate_passed (clock_gate ev) s)\<lparr>batch := [], client := c\<rparr>),
          SendLogBatch (batch s) None # map Net ios)"
  | (rejected) e c ios where "batch s \<noteq> []" "\<not> gate_blocks (clock_gate ev) s"
      "sendLogBatch (transport ev) (outgoing s) (client s) = (Inl e, c, ios)"
      "flush ev s =
         (Inl e,
          flush_failed (clock_done ev) (batch s)
            ((gate_passed (clock_gate ev) s)\<lparr>batch := [], client := c\<rparr>),
          SendLogBatch (batch s) (Some e) # map Net ios)"
proof (cases "batch s = []")
  case True
  then show ?thesis using empty by (simp add: flush_def)
next
  case nonempty: False
  show ?thesis
  proof (cases "gate_blocks (clock_gate ev) s")
    case True
    with nonempty have "flush ev s = (Inr (), s\<lparr>batch := []\<rparr>, [CircuitDrop (batch s)])"
      by (simp add: flush_def isCircuitOpen_eq gate_passed_eq)
    with nonempty True show ?thesis using dropped by blast
  next
    case False
    obtain r c ios where
      k: "sendLogBatch (transport ev) (outgoing s) (client s) = (r, c, ios)"
      by (cases "sendLogBatch (transport ev) (outgoing s) (client s)")
    show ?thesis
    proof (cases r)
      case (Inl e)
      with nonempty False k show ?thesis
        using rejected [of e c ios]
        by (simp add: flush_def isCircuitOpen_eq outgoing_def Let_def)
    next
      case (Inr u)
      with nonempty False k show ?thesis
        using sent [of c ios]
        by (simp add: flush_def isCircuitOpen_eq outgoing_def Let_def)
    qed
  qed
qed

lemma flush_succeeded_fields [simp]:
  "batch (flush_succeeded now bs s) = batch s"
  "client (flush_succeeded now bs s) = client s"
  "config (flush_succeeded now bs s) = config s"
  "stopped (flush_succeeded now bs s) = stopped s"
  "flushTimer (flush_succeeded now bs s) = flushTimer s"
  "exitHandlers (flush_succeeded now bs s) = exitHandlers s"
  "consecutiveFailures (flush_succeeded now bs s) = 0"
  "nextRetryDelay (flush_succeeded now bs s) = nullish (initialRetryDelay (config s)) 1000"
  "circuitOpen (flush_succeeded now bs s) = circuitOpen s"
  "circuitOpenTime (flush_succeeded now bs s) = circuitOpenTime s"
  by (simp_all add: flush_succeeded_def updateAverageBatchSize_def Let_def)

lemma flush_failed_fields [simp]:
  "batch (flush_failed now bs s) = bs @ batch s"
  "client (flush_failed now bs s) = client s"
  "config (flush_failed now bs s) = config s"
  "stopped (flush_failed now bs s) = stopped s"
  "flushTimer (flush_failed now bs s) = flushTimer s"
  "exitHandlers (flush_failed now bs s) = exitHandlers s"
  "consecutiveFailures (flush_failed now bs s) = consecutiveFailures s + 1"
  "nextRetryDelay (flush_failed now bs s) =
     min (nextRetryDelay s * nullish (retryBackoffMultiplier (config s)) 2)
         (nullish (maxRetryDelay (config s)) 60000)"
  "stats (flush_failed now bs s) = (stats s)\<lparr>errors := errors (stats s) + 1\<rparr>"
  by (simp_all add: flush_failed_def calculateNextRetryDelay_def openCircuit_def Let_def)

lemma flush_failed_circuit:
  "circuitOpen (flush_failed now bs s) =
     (circuitOpen s \<or>
      of_nat (consecutiveFailures s + 1) \<ge> nullish (circuitBreakerFailureThreshold (config s)) 5)"
  "circuitOpenTime (flush_failed now bs s) =
     (if of_nat (consecutiveFailures s + 1) \<ge> nullish (circuitBreakerFailureThreshold (config s)) 5
      then Some now else circuitOpenTime s)"
  by (simp_all add: flush_failed_def calculateNextRetryDelay_def openCircuit_def Let_def)

section \<open>Proofs: the batching engine\<close>

subsection \<open>Memory estimate\<close>

lemma foldl_metadata:
  "foldl (\<lambda>t (key, val). t + byteLength_utf8 (key @ val)) t0 kvs =
     t0 + (\<Sum>(k, v)\<leftarrow>kvs. byteLength_utf8 (k @ v))"
  by (induction kvs arbitrary: t0) auto

lemma add_entry_size_eq: "add_entry_size t x = t + entry_size x"
  by (simp add: add_entry_size_def entry_size_def foldl_metadata Let_def
           split: option.splits)

lemma foldl_add_entry_size:
  "foldl add_entry_size t es = t + memory_estimate es"
  by (induction es arbitrary: t) (simp_all add: add_entry_size_eq memory_estimate_def)

lemma getEstimatedMemoryUsage_eq:
  "getEstimatedMemoryUsage s = memory_estimate (batch s)"
  by (simp add: getEstimatedMemoryUsage_def foldl_add_entry_size)

lemma byteLength_append:
  "\<not> joins_halves xs ys \<Longrightarrow>
   byteLength_utf8 (xs @ ys) = byteLength_utf8 xs + byteLength_utf8 ys"
proof (induction xs rule: byteLength_utf8.induct)
  case 1
  show ?case by simp
next
  case (2 u)
  then show ?case by (cases ys) (auto simp: joins_halves_def)
next
  case (3 u v rest)
  then show ?case by (cases rest) (auto simp: joins_halves_def)
qed

lemma byteLength_ascii:
  "\<forall>u\<in>set xs. u < 0x80 \<Longrightarrow> byteLength_utf8 xs = length xs"
proof (induction xs rule: byteLength_utf8.induct)
  case (3 u v rest)
  then show ?case
    by (auto simp: is_high_def unit_len_def word_less_nat_alt word_le_nat_alt)
qed (simp_all add: unit_len_def)

lemma metadata_sum_separate:
  "list_all (\<lambda>(k, v). \<not> joins_halves k v) kvs \<Longrightarrow>
   (\<Sum>(k, v)\<leftarrow>kvs. byteLength_utf8 (k @ v))
     = (\<Sum>(k, v)\<leftarrow>kvs. byteLength_utf8 k + byteLength_utf8 v)"
  by (induction kvs) (auto simp: byteLength_append)

lemma entry_size_separate: "splits_no_pair x \<Longrightarrow> entry_size x = spec_entry_size x"
  by (auto simp: splits_no_pair_def entry_size_def spec_entry_size_def metadata_sum_separate
           split: option.splits)

lemma memory_estimate_separate:
  "list_all splits_no_pair es \<Longrightarrow> memory_estimate es = spec_memory_estimate es"
  by (induction es)
     (simp_all add: memory_estimate_def spec_memory_estimate_def entry_size_separate)

lemmas string_eval = units_def unit_len_def is_high_def is_low_def

subsection \<open>Shape of a flush\<close>

lemma gate_blocks_update [simp]:
  "gate_blocks now (s\<lparr>batch := b\<rparr>) = gate_blocks now s"
  "gate_blocks now (s\<lparr>stats := st\<rparr>) = gate_blocks now s"
  "gate_blocks now (s\<lparr>stopped := h\<rparr>) = gate_blocks now s"
  "gate_blocks now (s\<lparr>flushTimer := ft\<rparr>) = gate_blocks now s"
  "gate_blocks now (s\<lparr>exitHandlers := eh\<rparr>) = gate_blocks now s"
  by (simp_all add: gate_blocks_iff cong: option.case_cong)

lemma flush_blocked:
  assumes "batch s \<noteq> []" "gate_blocks (clock_gate ev) s"
  shows "flush ev s = (Inr (), s\<lparr>batch := []\<rparr>, [CircuitDrop (batch s)])"
  using assms by (cases ev s rule: flush_cases) simp_all

lemma flush_trace_nonempty:
  "batch s \<noteq> [] \<Longrightarrow> snd (snd (flush ev s)) \<noteq> []"
  by (cases ev s rule: flush_cases) simp_all

lemma flush_trace_shape:
  assumes "batch s \<noteq> []"
  shows "snd (snd (flush ev s)) = [CircuitDrop (batch s)] \<or>
         (\<exists>r ios. snd (snd (flush ev s)) = SendLogBatch (batch s) r # map Net ios)"
  using assms by (cases ev s rule: flush_cases) auto

lemma sendLogBatch_too_large:
  "length (entries b) > 100 \<Longrightarrow> sendLogBatch n b c = (Inl BatchTooLarge, c, [])"
  by (auto simp: sendLogBatch_def)

lemma sendLogBatch_empty:
  "length (entries b) = 0 \<Longrightarrow> sendLogBatch n b c = (Inl BatchEmpty, c, [])"
  by (simp add: sendLogBatch_def)

lemma flush_too_large:
  assumes "length (batch s) > 100" "\<not> gate_blocks (clock_gate ev) s"
  shows "flush ev s =
     (Inl BatchTooLarge,
      flush_failed (clock_done ev) (batch s) ((gate_passed (clock_gate ev) s)\<lparr>batch := []\<rparr>),
      [SendLogBatch (batch s) (Some BatchTooLarge)])"
proof (cases ev s rule: flush_cases)
  case empty
  with assms show ?thesis by simp
next
  case dropped
  with assms show ?thesis by simp
next
  case (sent c ios)
  with assms show ?thesis by (simp add: sendLogBatch_too_large outgoing_def)
next
  case (rejected e c ios)
  from assms rejected(3) have k: "e = BatchTooLarge" "c = client s" "ios = []"
    by (simp_all add: sendLogBatch_too_large outgoing_def)
  have same: "(gate_passed (clock_gate ev) s)\<lparr>batch := [], client := client s\<rparr>
      = (gate_passed (clock_gate ev) s)\<lparr>batch := []\<rparr>"
    by (simp add: gate_passed_eq)
  show ?thesis unfolding rejected(4) k same by simp
qed

subsection \<open>Claims about a single step\<close>

lemmas batch_sample_defs = touchy_def touchy_config_def tripped_def overfull_def pushed_def
  full100_def fresh_def up_at_def
  down_at_def createDefaultBatchConfig_def DEFAULT_FLUSH_INTERVAL_def MAX_BATCH_SIZE_def
  DEFAULT_INITIAL_RETRY_DELAY_def DEFAULT_MAX_RETRY_DELAY_def
  DEFAULT_RETRY_BACKOFF_MULTIPLIER_def DEFAULT_CIRCUIT_BREAKER_FAILURE_THRESHOLD_def
  DEFAULT_CIRCUIT_BREAKER_OPEN_TIMEOUT_def nullish_def

text \<open>
  \<^bold>\<open>Claim C10.\<close> When \<^verbatim>\<open>flush()\<close> finds entries pending, the circuit open and less than
  \<^verbatim>\<open>circuitBreakerOpenTimeout\<close> elapsed since it opened, the state after the call is the
  state before it with an empty buffer: the client is not called (the only effect is
  the warning line), the failure count, the retry delay, the circuit flag and its
  timestamp and every field of the statistics are what they were.
\<close>

theorem circuit_drop_frame:
  assumes "batch s \<noteq> []" and "circuitOpen s" and "circuitOpenTime s = Some opened"
    and "of_int (clock_gate ev - opened) < nullish (circuitBreakerOpenTimeout (config s)) 10000"
    and "flush ev s = (r, s', tr)"
  shows "r = Inr () \<and> s' = s\<lparr>batch := []\<rparr> \<and> tr = [CircuitDrop (batch s)]
    \<and> batch s' = [] \<and> send_calls tr = [] \<and> net_effects tr = []
    \<and> client s' = client s
    \<and> consecutiveFailures s' = consecutiveFailures s
    \<and> nextRetryDelay s' = nextRetryDelay s
    \<and> circuitOpen s' = circuitOpen s \<and> circuitOpenTime s' = circuitOpenTime s
    \<and> entriesProcessed (stats s') = entriesProcessed (stats s)
    \<and> batchesSent (stats s') = batchesSent (stats s)
    \<and> errors (stats s') = errors (stats s)
    \<and> averageBatchSize (stats s') = averageBatchSize (stats s)
    \<and> lastFlushTime (stats s') = lastFlushTime (stats s)"
proof -
  from assms(2-4) have "gate_blocks (clock_gate ev) s" by (simp add: gate_blocks_iff)
  with assms(1) have "flush ev s = (Inr (), s\<lparr>batch := []\<rparr>, [CircuitDrop (batch s)])"
    by (rule flush_blocked)
  with assms(5) show ?thesis by auto
qed

lemma flush_tripped:
  "flush (up_at 1050) tripped = (Inr (), tripped\<lparr>batch := []\<rparr>, [CircuitDrop [entry ''A'']])"
  by (simp add: flush_def isCircuitOpen_def batch_sample_defs)

theorem circuit_drop_frame_witness:
  "batch tripped \<noteq> [] \<and> circuitOpen tripped \<and> circuitOpenTime tripped = Some 1000
   \<and> rat_of_int (clock_gate (up_at 1050) - 1000)
       < nullish (circuitBreakerOpenTimeout (config tripped)) 10000
   \<and> flush (up_at 1050) tripped = (Inr (), tripped\<lparr>batch := []\<rparr>, [CircuitDrop [entry ''A'']])
   \<and> consecutiveFailures (tripped\<lparr>batch := []\<rparr>) = 1
   \<and> nextRetryDelay (tripped\<lparr>batch := []\<rparr>) = 2000
   \<and> circuitOpenTime (tripped\<lparr>batch := []\<rparr>) = Some 1000
   \<and> errors (stats (tripped\<lparr>batch := []\<rparr>)) = 1"
  using circuit_drop_frame [of tripped 1000 "up_at 1050" "Inr ()" "tripped\<lparr>batch := []\<rparr>"
      "[CircuitDrop [entry ''A'']]"] flush_tripped
  by (simp add: batch_sample_defs)

text \<open>
  \<^bold>\<open>Claim C9\<close> (as amended). While the circuit is open and its timeout has not elapsed,
  \<^verbatim>\<open>addLogEntry\<close> on a running client resolves without an error: the entry is pushed and
  counted in \<open>entriesProcessed\<close>, and when the call triggers a flush the whole buffer is
  discarded. A flush in that state resolves as well, and it leaves the statistics as
  they are: \<^verbatim>\<open>BatchStats\<close> has no counter of drops, and the only record of the drop is
  the console warning with the number of entries.
\<close>

theorem open_circuit_drops_silently:
  assumes "\<not> stopped s" and "circuitOpen s" and "circuitOpenTime s = Some opened"
    and "of_int (clock_gate ev - opened) < nullish (circuitBreakerOpenTimeout (config s)) 10000"
  shows "fst (addLogEntry ev x s) = Inr ()
    \<and> stats (fst (snd (addLogEntry ev x s))) =
           (stats s)\<lparr>entriesProcessed := entriesProcessed (stats s) + 1\<rparr>
    \<and> (snd (snd (addLogEntry ev x s)) = []
           \<and> batch (fst (snd (addLogEntry ev x s))) = batch s @ [x]
         \<or> snd (snd (addLogEntry ev x s)) = [CircuitDrop (batch s @ [x])]
           \<and> batch (fst (snd (addLogEntry ev x s))) = [])
    \<and> fst (flush ev s) = Inr ()
    \<and> stats (fst (snd (flush ev s))) = stats s
    \<and> batch (fst (snd (flush ev s))) = []
    \<and> snd (snd (flush ev s)) = (if batch s = [] then [] else [CircuitDrop (batch s)])"
proof -
  from assms(2-4) have g: "gate_blocks (clock_gate ev) s" by (simp add: gate_blocks_iff)
  have f: "flush ev s = (if batch s = [] then (Inr (), s, [])
                         else (Inr (), s\<lparr>batch := []\<rparr>, [CircuitDrop (batch s)]))"
    using g by (simp add: flush_blocked) (simp add: flush_def)
  have p: "flush ev (pushed x s) =
      (Inr (), (pushed x s)\<lparr>batch := []\<rparr>, [CircuitDrop (batch s @ [x])])"
    using g flush_blocked [of "pushed x s" ev] by (simp add: pushed_def)
  have a: "addLogEntry ev x s = (Inr (), pushed x s, []) \<or>
           addLogEntry ev x s = flush ev (pushed x s)"
    using assms(1) by (simp add: addLogEntry_def pushed_def Let_def)
  from a show ?thesis
  proof
    assume "addLogEntry ev x s = (Inr (), pushed x s, [])"
    then show ?thesis by (simp add: f pushed_def)
  next
    assume h: "addLogEntry ev x s = flush ev (pushed x s)"
    show ?thesis unfolding h p f by (simp add: pushed_def)
  qed
qed

lemma tripped_reachable:
  "fst (run [Add (up_at 1) (entry ''A''), Flush (down_at 1000)] touchy) = tripped"
  by (simp add: addLogEntry_def flush_def isCircuitOpen_def sendLogBatch_def
        getEstimatedMemoryUsage_def add_entry_size_def string_eval entry_def
        flush_failed_def calculateNextRetryDelay_def openCircuit_def
        unix_connect_defs unix_sample_defs batch_sample_defs Let_def)

text \<open>Claim C9 as stated fails: the client of the recovery test, after one entry and
  one failed flush, drops that entry at the next flush, and the statistics after the
  drop are the statistics before it.\<close>

theorem drop_not_in_stats_counterexample:
  "snd (snd (flush (up_at 1050) tripped)) = [CircuitDrop [entry ''A'']]
   \<and> stats (fst (snd (flush (up_at 1050) tripped))) = stats tripped"
  by (simp add: flush_tripped)

theorem open_circuit_drops_silently_witness:
  "\<not> stopped tripped \<and> circuitOpen tripped \<and> circuitOpenTime tripped = Some 1000
   \<and> rat_of_int (clock_gate (up_at 1050) - 1000)
       < nullish (circuitBreakerOpenTimeout (config tripped)) 10000
   \<and> fst (addLogEntry (up_at 1050) (entry ''B'') tripped) = Inr ()
   \<and> entriesProcessed (stats (fst (snd (addLogEntry (up_at 1050) (entry ''B'') tripped)))) = 2
   \<and> fst (flush (up_at 1050) tripped) = Inr ()
   \<and> errors (stats (fst (snd (flush (up_at 1050) tripped)))) = 1
   \<and> snd (snd (flush (up_at 1050) tripped)) = [CircuitDrop [entry ''A'']]"
  using open_circuit_drops_silently [of tripped 1000 "up_at 1050" "entry ''B''"]
  by (simp add: batch_sample_defs)

text \<open>
  \<^bold>\<open>Claim C5\<close> (as amended). \<^verbatim>\<open>sendLogBatch\<close> rejects a batch of no entries and a batch
  of more than 100 entries with a validation error, leaving the client as it is and
  touching no socket. \<^verbatim>\<open>flush\<close> does not tell this rejection from any other: when more
  than 100 entries are pending and the gate lets the flush through, the call of
  \<^verbatim>\<open>sendLogBatch\<close> is rejected by the validation, and the \<^verbatim>\<open>catch\<close> block counts an error
  and a consecutive failure, advances the retry delay, opens the circuit when the
  threshold is reached, restores the entries and rethrows.
\<close>

theorem batch_size_validation:
  "(length (entries b) = 0 \<longrightarrow> sendLogBatch n b c = (Inl BatchEmpty, c, []))
   \<and> (length (entries b) > 100 \<longrightarrow> sendLogBatch n b c = (Inl BatchTooLarge, c, []))
   \<and> (length (batch s) > 100 \<and> \<not> gate_blocks (clock_gate ev) s \<longrightarrow>
        fst (flush ev s) = Inl BatchTooLarge
        \<and> snd (snd (flush ev s)) = [SendLogBatch (batch s) (Some BatchTooLarge)]
        \<and> batch (fst (snd (flush ev s))) = batch s
        \<and> client (fst (snd (flush ev s))) = client s
        \<and> errors (stats (fst (snd (flush ev s)))) = errors (stats s) + 1
        \<and> consecutiveFailures (fst (snd (flush ev s))) = consecutiveFailures s + 1
        \<and> nextRetryDelay (fst (snd (flush ev s))) =
            min (nextRetryDelay s * nullish (retryBackoffMultiplier (config s)) 2)
                (nullish (maxRetryDelay (config s)) 60000)
        \<and> circuitOpen (fst (snd (flush ev s))) =
            (of_nat (consecutiveFailures s + 1)
               \<ge> nullish (circuitBreakerFailureThreshold (config s)) 5))"
proof (intro conjI impI)
  show "sendLogBatch n b c = (Inl BatchEmpty, c, [])" if "length (entries b) = 0"
    using that by (rule sendLogBatch_empty)
  show "sendLogBatch n b c = (Inl BatchTooLarge, c, [])" if "100 < length (entries b)"
    using that by (rule sendLogBatch_too_large)
next
  assume a: "100 < length (batch s) \<and> \<not> gate_blocks (clock_gate ev) s"
  then have f: "flush ev s =
     (Inl BatchTooLarge,
      flush_failed (clock_done ev) (batch s) ((gate_passed (clock_gate ev) s)\<lparr>batch := []\<rparr>),
      [SendLogBatch (batch s) (Some BatchTooLarge)])"
    by (simp add: flush_too_large)
  from a have closed: "\<not> circuitOpen (gate_passed (clock_gate ev) s)"
    by (simp add: gate_passed_closed)
  show "fst (flush ev s) = Inl BatchTooLarge"
    "snd (snd (flush ev s)) = [SendLogBatch (batch s) (Some BatchTooLarge)]"
    "batch (fst (snd (flush ev s))) = batch s"
    "client (fst (snd (flush ev s))) = client s"
    "errors (stats (fst (snd (flush ev s)))) = errors (stats s) + 1"
    "consecutiveFailures (fst (snd (flush ev s))) = consecutiveFailures s + 1"
    "nextRetryDelay (fst (snd (flush ev s))) =
            min (nextRetryDelay s * nullish (retryBackoffMultiplier (config s)) 2)
                (nullish (maxRetryDelay (config s)) 60000)"
    by (simp_all add: f)
  show "circuitOpen (fst (snd (flush ev s))) =
            (of_nat (consecutiveFailures s + 1)
               \<ge> nullish (circuitBreakerFailureThreshold (config s)) 5)"
    using closed by (simp add: f flush_failed_circuit)
qed

lemma overfull_facts:
  "length (batch overfull) = 101" "\<not> gate_blocks 5 overfull" "consecutiveFailures overfull = 1"
  "nextRetryDelay overfull = 1000" "clock_gate (up_at 5) = 5"
  "config overfull = createDefaultBatchConfig"
  by (simp_all add: overfull_def pushed_def full100_def fresh_def gate_blocks_iff up_at_def)

theorem batch_size_validation_witness:
  "sendLogBatch net_up \<lparr>version = None, entries = []\<rparr> unix_client
     = (Inl BatchEmpty, unix_client, [])
   \<and> sendLogBatch net_up \<lparr>version = None, entries = replicate 101 (entry ''x'')\<rparr> unix_client
     = (Inl BatchTooLarge, unix_client, [])
   \<and> 100 < length (batch overfull) \<and> \<not> gate_blocks (clock_gate (up_at 5)) overfull
   \<and> consecutiveFailures (fst (snd (flush (up_at 5) overfull))) = 2
   \<and> batch (fst (snd (flush (up_at 5) overfull))) = batch overfull
   \<and> \<not> circuitOpen (fst (snd (flush (up_at 5) overfull)))"
  using batch_size_validation [of "\<lparr>version = None, entries = []\<rparr>" net_up unix_client
          overfull "up_at 5"]
    batch_size_validation [of "\<lparr>version = None, entries = replicate 101 (entry ''x'')\<rparr>"
          net_up unix_client overfull "up_at 5"]
  by (simp add: overfull_facts) (simp add: batch_sample_defs)

text \<open>
  \<^bold>\<open>Claim C7\<close> (as amended). On a running client \<^verbatim>\<open>addLogEntry\<close> appends the entry to
  the buffer and increments \<open>entriesProcessed\<close>; it then calls \<^verbatim>\<open>flush\<close> exactly when the
  number of pending entries has reached \<^verbatim>\<open>maxBatchSize\<close> or the memory estimate has
  reached \<^verbatim>\<open>maxMemoryUsage\<close>, and otherwise returns. The estimate that the loop of
  \<^verbatim>\<open>getEstimatedMemoryUsage\<close> computes is the sum, over the pending entries, of 200 plus
  the byte length of the payload plus, for every metadata pair, the byte length of the
  key concatenated with the value; this is the sum of the byte lengths of the keys and
  the values whenever no key ends with a high surrogate while its value begins with a
  low one. A flush of a non-empty buffer always leaves an effect, so the effects of
  the call are non-empty exactly when the flush was triggered. In particular an entry
  whose estimate exceeds \<^verbatim>\<open>maxMemoryUsage\<close>, added to an empty buffer, is flushed at once
  and alone: it is handed to \<^verbatim>\<open>sendLogBatch\<close> as a batch of one, or dropped alone by the
  open circuit.
\<close>

theorem add_triggers_flush:
  assumes "\<not> stopped s"
  shows "addLogEntry ev x s =
      (if of_nat (length (batch s) + 1) \<ge> maxBatchSize (config s)
          \<or> of_nat (memory_estimate (batch s @ [x])) \<ge> maxMemoryUsage (config s)
       then flush ev (pushed x s) else (Inr (), pushed x s, []))
    \<and> batch (pushed x s) = batch s @ [x]
    \<and> entriesProcessed (stats (pushed x s)) = entriesProcessed (stats s) + 1
    \<and> getEstimatedMemoryUsage (pushed x s) = memory_estimate (batch s @ [x])
    \<and> (list_all splits_no_pair (batch s @ [x]) \<longrightarrow>
          memory_estimate (batch s @ [x]) = spec_memory_estimate (batch s @ [x]))
    \<and> (snd (snd (addLogEntry ev x s)) \<noteq> [] \<longleftrightarrow>
          of_nat (length (batch s) + 1) \<ge> maxBatchSize (config s)
          \<or> of_nat (memory_estimate (batch s @ [x])) \<ge> maxMemoryUsage (config s))
    \<and> (batch s = [] \<and> of_nat (entry_size x) > maxMemoryUsage (config s) \<longrightarrow>
          addLogEntry ev x s = flush ev (pushed x s) \<and> batch (pushed x s) = [x]
          \<and> (snd (snd (addLogEntry ev x s)) = [CircuitDrop [x]]
              \<or> (\<exists>r ios. snd (snd (addLogEntry ev x s)) = SendLogBatch [x] r # map Net ios)))"
proof -
  have m: "getEstimatedMemoryUsage (pushed x s) = memory_estimate (batch s @ [x])"
    by (simp add: getEstimatedMemoryUsage_eq pushed_def)
  have a: "addLogEntry ev x s =
      (if of_nat (length (batch s) + 1) \<ge> maxBatchSize (config s)
          \<or> of_nat (memory_estimate (batch s @ [x])) \<ge> maxMemoryUsage (config s)
       then flush ev (pushed x s) else (Inr (), pushed x s, []))"
    using assms m by (simp add: addLogEntry_def pushed_def Let_def)
  have ne: "batch (pushed x s) \<noteq> []" by (simp add: pushed_def)
  have t: "snd (snd (addLogEntry ev x s)) \<noteq> [] \<longleftrightarrow>
          of_nat (length (batch s) + 1) \<ge> maxBatchSize (config s)
          \<or> of_nat (memory_estimate (batch s @ [x])) \<ge> maxMemoryUsage (config s)"
    using flush_trace_nonempty [OF ne, of ev] by (simp add: a)
  have big: "addLogEntry ev x s = flush ev (pushed x s) \<and> batch (pushed x s) = [x]
          \<and> (snd (snd (addLogEntry ev x s)) = [CircuitDrop [x]]
              \<or> (\<exists>r ios. snd (snd (addLogEntry ev x s)) = SendLogBatch [x] r # map Net ios))"
    if "batch s = [] \<and> of_nat (entry_size x) > maxMemoryUsage (config s)"
  proof -
    from that have "addLogEntry ev x s = flush ev (pushed x s)"
      by (simp add: a memory_estimate_def)
    moreover from that have "batch (pushed x s) = [x]" by (simp add: pushed_def)
    ultimately show ?thesis using flush_trace_shape [OF ne, of ev] by simp
  qed
  have b1: "batch (pushed x s) = batch s @ [x]" by (simp add: pushed_def)
  have b2: "entriesProcessed (stats (pushed x s)) = entriesProcessed (stats s) + 1"
    by (simp add: pushed_def)
  have sep: "memory_estimate (batch s @ [x]) = spec_memory_estimate (batch s @ [x])"
    if "list_all splits_no_pair (batch s @ [x])"
    using that by (rule memory_estimate_separate)
  show ?thesis
  proof (intro conjI impI)
    show "batch (pushed x s) = [x]"
      if "batch s = [] \<and> of_nat (entry_size x) > maxMemoryUsage (config s)"
      using big [OF that] by blast
    show "addLogEntry ev x s = flush ev (pushed x s)"
      if "batch s = [] \<and> of_nat (entry_size x) > maxMemoryUsage (config s)"
      using big [OF that] by blast
    show "snd (snd (addLogEntry ev x s)) = [CircuitDrop [x]]
              \<or> (\<exists>r ios. snd (snd (addLogEntry ev x s)) = SendLogBatch [x] r # map Net ios)"
      if "batch s = [] \<and> of_nat (entry_size x) > maxMemoryUsage (config s)"
      using big [OF that] by blast
    show "memory_estimate (batch s @ [x]) = spec_memory_estimate (batch s @ [x])"
      if "list_all splits_no_pair (batch s @ [x])"
      using that by (rule sep)
  qed (rule a b1 b2 m t)+
qed

lemma big_entry_size: "entry_size big_entry = 1100"
proof -
  have "byteLength_utf8 (units (replicate 900 CHR ''a'')) = length (units (replicate 900 CHR ''a''))"
    by (rule byteLength_ascii) (auto simp: units_def)
  then show ?thesis by (simp add: entry_size_def big_entry_def entry_def units_def)
qed

lemma halves_entry_sizes:
  "entry_size halves_entry = 205" "spec_entry_size halves_entry = 207"
  by (simp_all add: entry_size_def spec_entry_size_def halves_entry_def entry_def string_eval)

text \<open>Claim C7 as stated fails. The entry below has a payload of one byte and one
  metadata pair whose key is a high surrogate and whose value is a low surrogate:
  three bytes each when measured alone, four bytes together. The sum in the words of
  the claim is 207 and has reached the limit of 206; the estimate of the code is 205,
  and \<^verbatim>\<open>addLogEntry\<close> returns without a flush.\<close>

theorem estimate_counterexample:
  "\<not> stopped snug \<and> batch snug = [] \<and> maxMemoryUsage (config snug) = 206
   \<and> spec_memory_estimate [halves_entry] = 207
   \<and> getEstimatedMemoryUsage (pushed halves_entry snug) = 205
   \<and> addLogEntry (up_at 7) halves_entry snug = (Inr (), pushed halves_entry snug, [])"
  by (simp add: getEstimatedMemoryUsage_eq memory_estimate_def spec_memory_estimate_def
        halves_entry_sizes addLogEntry_def Let_def snug_def touchy_def touchy_config_def
        pushed_def)

theorem add_triggers_flush_witness:
  "\<not> stopped touchy
   \<and> addLogEntry (up_at 7) (entry ''A'') touchy = (Inr (), pushed (entry ''A'') touchy, [])
   \<and> getEstimatedMemoryUsage (pushed tagged_entry touchy) = 217
   \<and> list_all splits_no_pair (batch touchy @ [tagged_entry])
   \<and> spec_memory_estimate (batch touchy @ [tagged_entry]) = 217
   \<and> batch touchy = [] \<and> of_nat (entry_size big_entry) > maxMemoryUsage (config touchy)
   \<and> addLogEntry (up_at 7) big_entry touchy = flush (up_at 7) (pushed big_entry touchy)
   \<and> batch (pushed big_entry touchy) = [big_entry]"
  using add_triggers_flush [of touchy "up_at 7" "entry ''A''"]
    add_triggers_flush [of touchy "up_at 7" tagged_entry]
    add_triggers_flush [of touchy "up_at 7" big_entry]
  by (simp add: memory_estimate_def spec_memory_estimate_def big_entry_size)
     (simp add: entry_size_def spec_entry_size_def splits_no_pair_def joins_halves_def
        entry_def tagged_entry_def touchy_def touchy_config_def string_eval)

subsection \<open>Steps in terms of flush\<close>

lemma flush_keeps [simp]:
  "config (fst (snd (flush ev s))) = config s"
  "stopped (fst (snd (flush ev s))) = stopped s"
  "flushTimer (fst (snd (flush ev s))) = flushTimer s"
  "exitHandlers (fst (snd (flush ev s))) = exitHandlers s"
  by (cases ev s rule: flush_cases; simp)+

lemma ctl_update [simp]:
  "ctl (s\<lparr>batch := b\<rparr>) = ctl s"
  "ctl (s\<lparr>stats := st\<rparr>) = ctl s"
  "ctl (s\<lparr>stopped := h\<rparr>) = ctl s"
  "ctl (s\<lparr>flushTimer := ft\<rparr>) = ctl s"
  "ctl (s\<lparr>exitHandlers := eh\<rparr>) = ctl s"
  "ctl (s\<lparr>client := c\<rparr>) = ctl s"
  by (simp_all add: ctl_def)

lemma ctl_pushed [simp]: "ctl (pushed x s) = ctl s"
  by (simp add: pushed_def)

lemma addLogEntry_cases:
  obtains (halted) "stopped s" "addLogEntry ev x s = (Inl ClientStopped, s, [])"
  | (kept) "\<not> stopped s" "addLogEntry ev x s = (Inr (), pushed x s, [])"
  | (flushed) "\<not> stopped s" "addLogEntry ev x s = flush ev (pushed x s)"
proof -
  have "stopped s \<and> addLogEntry ev x s = (Inl ClientStopped, s, [])
      \<or> \<not> stopped s \<and> (addLogEntry ev x s = (Inr (), pushed x s, [])
                         \<or> addLogEntry ev x s = flush ev (pushed x s))"
    by (simp add: addLogEntry_def pushed_def Let_def)
  then show thesis using halted kept flushed by blast
qed

lemma timerFires_cases:
  obtains (idle) "timerFires ev s = (s, [])"
  | (quiet) s1 tr where "batch s \<noteq> []" "\<not> stopped s" "flush ev s = (Inr (), s1, tr)"
      "timerFires ev s = (s1, tr)"
  | (failed) e s1 tr where "batch s \<noteq> []" "\<not> stopped s" "flush ev s = (Inl e, s1, tr)"
      "timerFires ev s =
         (s1\<lparr>stats := (stats s1)\<lparr>errors := errors (stats s1) + 1\<rparr>\<rparr>,
          tr @ [ErrorDuringTimerFlush e])"
proof (cases "flushTimer s \<and> \<not> stopped s \<and> batch s \<noteq> []")
  case False
  then have "timerFires ev s = (s, [])" by (auto simp: timerFires_def)
  then show ?thesis by (rule idle)
next
  case True
  obtain r s1 tr where f: "flush ev s = (r, s1, tr)" by (cases "flush ev s")
  show ?thesis
  proof (cases r)
    case (Inl e)
    with True f show ?thesis using failed [of e s1 tr] by (simp add: timerFires_def)
  next
    case (Inr u)
    with True f show ?thesis using quiet [of s1 tr] by (simp add: timerFires_def)
  qed
qed

text \<open>The state in which \<^verbatim>\<open>stop\<close> reaches its flush.\<close>

lemma stop_cases:
  fixes s :: BatchClient
  defines "s3 \<equiv> s\<lparr>stopped := True, flushTimer := False, exitHandlers := False\<rparr>"
  obtains (nothing) "batch s = []"
      "stop ev s = (Inr (), s3\<lparr>client := fst (close (client s))\<rparr>,
                    CloseClient # map Net (snd (close (client s))))"
  | (quiet) s4 tr where "batch s \<noteq> []" "flush ev s3 = (Inr (), s4, tr)"
      "stop ev s = (Inr (), s4\<lparr>client := fst (close (client s4))\<rparr>,
                    tr @ CloseClient # map Net (snd (close (client s4))))"
  | (failed) e s4 tr where "batch s \<noteq> []" "flush ev s3 = (Inl e, s4, tr)"
      "stop ev s = (Inr (), s4\<lparr>client := fst (close (client s4))\<rparr>,
                    (tr @ [ErrorDuringStop e]) @ CloseClient # map Net (snd (close (client s4))))"
proof (cases "batch s = []")
  case True
  then have "stop ev s = (Inr (), s3\<lparr>client := fst (close (client s))\<rparr>,
                    CloseClient # map Net (snd (close (client s))))"
    by (simp add: stop_def s3_def Let_def split: prod.splits)
  with True show ?thesis by (rule nothing)
next
  case False
  obtain r s4 tr where f: "flush ev s3 = (r, s4, tr)" by (cases "flush ev s3")
  show ?thesis
  proof (cases r)
    case (Inl e)
    with False f show ?thesis using failed [of e s4 tr]
      by (simp add: stop_def s3_def Let_def split: prod.splits)
  next
    case (Inr u)
    with False f show ?thesis using quiet [of s4 tr]
      by (simp add: stop_def s3_def Let_def split: prod.splits)
  qed
qed

lemma step_preserves:
  assumes fl: "\<And>ev s. Q (ctl s) \<Longrightarrow> Q (ctl (fst (snd (flush ev s))))"
    and "Q (ctl s)"
  shows "Q (ctl (fst (step x s)))"
proof (cases x)
  case (Add ev y)
  show ?thesis
  proof (cases rule: addLogEntry_cases [where s = s and ev = ev and x = y])
    case halted
    with Add assms(2) show ?thesis by simp
  next
    case kept
    with Add assms(2) show ?thesis by simp
  next
    case flushed
    with Add fl [of "pushed y s" ev] assms(2) show ?thesis
      by (cases "flush ev (pushed y s)") simp
  qed
next
  case (Flush ev)
  with fl [of s ev] assms(2) show ?thesis by (cases "flush ev s") simp
next
  case (Timer ev)
  show ?thesis
  proof (cases rule: timerFires_cases [where s = s and ev = ev])
    case idle
    with Timer assms(2) show ?thesis by simp
  next
    case (quiet s1 tr)
    with Timer fl [of s ev] assms(2) show ?thesis by simp
  next
    case (failed e s1 tr)
    with Timer fl [of s ev] assms(2) show ?thesis by simp
  qed
next
  case (Stop ev)
  show ?thesis
  proof (cases rule: stop_cases [where s = s and ev = ev])
    case nothing
    with Stop assms(2) show ?thesis by simp
  next
    case (quiet s4 tr)
    with Stop assms(2)
      fl [of "s\<lparr>stopped := True, flushTimer := False, exitHandlers := False\<rparr>" ev]
    show ?thesis by simp
  next
    case (failed e s4 tr)
    with Stop assms(2)
      fl [of "s\<lparr>stopped := True, flushTimer := False, exitHandlers := False\<rparr>" ev]
    show ?thesis by simp
  qed
qed

lemma fst_run_Cons: "fst (run (x # xs) s) = fst (run xs (fst (step x s)))"
  by (simp split: prod.splits)

lemma snd_run_Cons: "snd (run (x # xs) s) = snd (step x s) @ snd (run xs (fst (step x s)))"
  by (simp split: prod.splits)

lemma run_preserves:
  assumes fl: "\<And>ev s. Q (ctl s) \<Longrightarrow> Q (ctl (fst (snd (flush ev s))))"
  shows "Q (ctl s) \<Longrightarrow> Q (ctl (fst (run xs s)))"
proof (induction xs arbitrary: s)
  case Nil
  then show ?case by simp
next
  case (Cons x xs)
  from step_preserves [of Q, OF fl Cons.prems] have "Q (ctl (fst (step x s)))" .
  from Cons.IH [OF this] show ?case by (simp only: fst_run_Cons)
qed

subsection \<open>The constructor\<close>

lemma newBatchClient_facts:
  assumes "newBatchClient c cfg = Inr s0"
  shows "batch s0 = []" "\<not> stopped s0" "consecutiveFailures s0 = 0" "\<not> circuitOpen s0"
    "circuitOpenTime s0 = None" "nextRetryDelay s0 = initial_delay (config s0)"
    "validateBatchConfig (config s0) = Inr ()"
  using assms
  by (auto simp: newBatchClient_def initial_delay_def Let_def split: sum.splits)

lemma validated_delays:
  assumes "validateBatchConfig k = Inr ()"
  shows "0 < initial_delay k" "1 < multiplier k" "0 < max_delay k"
proof -
  from assms have r: "validateBatchRetryConfig k = Inr ()"
    by (auto simp: validateBatchConfig_def split: sum.splits)
  from r show "0 < initial_delay k"
    by (cases "initialRetryDelay k")
       (auto simp: validateBatchRetryConfig_def defined_and_def initial_delay_def nullish_def
             split: if_splits)
  from r show "1 < multiplier k"
    by (cases "retryBackoffMultiplier k")
       (auto simp: validateBatchRetryConfig_def defined_and_def multiplier_def nullish_def
             split: if_splits)
  from r show "0 < max_delay k"
    by (cases "maxRetryDelay k")
       (auto simp: validateBatchRetryConfig_def defined_and_def max_delay_def nullish_def
             split: if_splits)
qed

subsection \<open>Backoff\<close>

lemma send_calls_Net [simp]: "send_calls (map Net ios) = []"
  by (induction ios) simp_all

lemma flush_sends_iff:
  "flush_sends ev s \<longleftrightarrow>
     batch s \<noteq> [] \<and> \<not> gate_blocks (clock_gate ev) s \<and>
     fst (sendLogBatch (transport ev) (outgoing s) (client s)) = Inr ()"
  by (cases ev s rule: flush_cases) (auto simp: flush_sends_def)

lemma flush_sends_state:
  assumes "flush_sends ev s"
  shows "fst (flush ev s) = Inr ()" "batch (fst (snd (flush ev s))) = []"
    "consecutiveFailures (fst (snd (flush ev s))) = 0"
    "nextRetryDelay (fst (snd (flush ev s))) = initial_delay (config s)"
    "\<not> circuitOpen (fst (snd (flush ev s)))"
  using assms
  by (cases ev s rule: flush_cases;
      simp add: flush_sends_def initial_delay_def gate_passed_closed)+

lemma flush_rejected_state:
  assumes "fst (flush ev s) = Inl e"
  shows "batch s \<noteq> []" "\<not> gate_blocks (clock_gate ev) s"
    "batch (fst (snd (flush ev s))) = batch s"
    "consecutiveFailures (fst (snd (flush ev s))) = consecutiveFailures s + 1"
    "nextRetryDelay (fst (snd (flush ev s))) =
       min (nextRetryDelay s * multiplier (config s)) (max_delay (config s))"
    "circuitOpen (fst (snd (flush ev s))) =
       (of_nat (consecutiveFailures s + 1) \<ge> failure_threshold (config s))"
    "of_nat (consecutiveFailures s + 1) \<ge> failure_threshold (config s) \<Longrightarrow>
       circuitOpenTime (fst (snd (flush ev s))) = Some (clock_done ev)"
    "send_calls (snd (snd (flush ev s))) = [SendLogBatch (batch s) (Some e)]"
  using assms
  by (cases ev s rule: flush_cases;
      simp add: multiplier_def max_delay_def failure_threshold_def flush_failed_circuit
        gate_passed_closed)+

lemma flush_outcomes:
  "ctl (fst (snd (flush ev s))) = ctl s \<or> flush_sends ev s \<or> (\<exists>e. fst (flush ev s) = Inl e)"
  by (cases ev s rule: flush_cases) (simp_all add: flush_sends_def ctl_def)

lemma backoff_inv_ctl:
  "backoff_inv k0 (ctl s) \<longleftrightarrow>
     config s = k0 \<and> 0 < nextRetryDelay s \<and> nextRetryDelay s \<le> max_delay k0"
  by (simp add: backoff_inv_def ctl_def)

lemma flush_backoff_inv:
  assumes k: "0 < initial_delay k0" "1 < multiplier k0" "initial_delay k0 \<le> max_delay k0"
    and i: "backoff_inv k0 (ctl s)"
  shows "backoff_inv k0 (ctl (fst (snd (flush ev s))))"
proof -
  from i have c: "config s = k0" and d: "0 < nextRetryDelay s" "nextRetryDelay s \<le> max_delay k0"
    by (simp_all add: backoff_inv_ctl)
  from flush_outcomes [of ev s] show ?thesis
  proof (elim disjE exE)
    assume "ctl (fst (snd (flush ev s))) = ctl s"
    with i show ?thesis by simp
  next
    assume "flush_sends ev s"
    from flush_sends_state(4) [OF this] k c show ?thesis by (simp add: backoff_inv_ctl)
  next
    fix e assume "fst (flush ev s) = Inl e"
    from flush_rejected_state(5) [OF this] c
    have n: "nextRetryDelay (fst (snd (flush ev s))) =
       min (nextRetryDelay s * multiplier k0) (max_delay k0)" by simp
    from d k have "0 < nextRetryDelay s * multiplier k0" by simp
    moreover from d k have "0 < max_delay k0" by simp
    ultimately show ?thesis using c by (simp add: backoff_inv_ctl n)
  qed
qed

lemma backoff_grows:
  fixes d m mx :: rat
  assumes "0 < d" "1 < m" "d \<le> mx"
  shows "d \<le> min (d * m) mx"
proof -
  from assms have "d * 1 \<le> d * m" by (intro mult_left_mono) simp_all
  with assms show ?thesis by simp
qed

lemma reachable_backoff_inv:
  assumes "newBatchClient c cfg = Inr s0"
    and "initial_delay (config s0) \<le> max_delay (config s0)"
  shows "backoff_inv (config s0) (ctl (fst (run xs s0)))"
proof -
  note f = newBatchClient_facts [OF assms(1)]
  note v = validated_delays [OF f(7)]
  have "backoff_inv (config s0) (ctl s0)"
    using f(6) v(1) assms(2) by (simp add: backoff_inv_ctl)
  then show ?thesis
    by (rule run_preserves [where Q = "backoff_inv (config s0)", rotated])
       (rule flush_backoff_inv [OF v(1) v(2) assms(2)])
qed

text \<open>
  \<^bold>\<open>Claim C3.\<close> Let a client be constructed from a configuration whose effective initial
  delay does not exceed its effective maximal delay (validation makes the multiplier
  greater than 1), and let it go through any history of calls. A flush that sends and
  succeeds resets \<open>consecutiveFailures\<close> to 0 and \<open>nextRetryDelay\<close> to the initial delay; a
  flush that fails increments \<open>consecutiveFailures\<close> and sets \<open>nextRetryDelay\<close> to the
  minimum of \<open>nextRetryDelay * multiplier\<close> and the maximal delay, which is not less
  than before; and \<open>nextRetryDelay\<close> never exceeds the maximal delay.
\<close>

theorem backoff_schedule:
  fixes xs :: "op list" and ev :: env
  assumes "newBatchClient c cfg = Inr s0"
    and "initial_delay (config s0) \<le> max_delay (config s0)"
  defines "s \<equiv> fst (run xs s0)"
  defines "s' \<equiv> fst (snd (flush ev s))"
  shows "(flush_sends ev s \<longrightarrow>
            consecutiveFailures s' = 0 \<and> nextRetryDelay s' = initial_delay (config s))
    \<and> (fst (flush ev s) = Inl e \<longrightarrow>
            consecutiveFailures s' = consecutiveFailures s + 1
          \<and> nextRetryDelay s' = min (nextRetryDelay s * multiplier (config s)) (max_delay (config s))
          \<and> nextRetryDelay s \<le> nextRetryDelay s')
    \<and> 1 < multiplier (config s)
    \<and> nextRetryDelay s \<le> max_delay (config s)
    \<and> nextRetryDelay s' \<le> max_delay (config s)"
proof -
  note f = newBatchClient_facts [OF assms(1)]
  note v = validated_delays [OF f(7)]
  from reachable_backoff_inv [OF assms(1,2), of xs]
  have i: "backoff_inv (config s0) (ctl s)" by (simp add: s_def)
  then have c: "config s = config s0" and d: "0 < nextRetryDelay s"
    "nextRetryDelay s \<le> max_delay (config s0)"
    by (simp_all add: backoff_inv_ctl)
  from flush_backoff_inv [OF v(1) v(2) assms(2) i, of ev]
  have d': "nextRetryDelay s' \<le> max_delay (config s0)"
    by (simp add: backoff_inv_ctl s'_def)
  have a: "consecutiveFailures s' = 0 \<and> nextRetryDelay s' = initial_delay (config s)"
    if "flush_sends ev s"
    using flush_sends_state(3,4) [OF that] by (simp add: s'_def)
  have b: "consecutiveFailures s' = consecutiveFailures s + 1
          \<and> nextRetryDelay s' = min (nextRetryDelay s * multiplier (config s)) (max_delay (config s))
          \<and> nextRetryDelay s \<le> nextRetryDelay s'"
    if "fst (flush ev s) = Inl e"
  proof -
    from flush_rejected_state(4,5) [OF that]
    have k: "consecutiveFailures s' = consecutiveFailures s + 1"
      "nextRetryDelay s' = min (nextRetryDelay s * multiplier (config s)) (max_delay (config s))"
      by (simp_all add: s'_def)
    from backoff_grows [OF d(1) v(2) d(2)] k c show ?thesis by simp
  qed
  from a b c d d' v(2) show ?thesis by simp
qed

lemma touchy_constructed: "newBatchClient unix_client (Some touchy_config) = Inr touchy"
  by (simp add: newBatchClient_def touchy_def touchy_config_def validateBatchConfig_def
        validateBatchBasicConfig_def validateBatchRetryConfig_def
        validateBatchCircuitBreakerConfig_def defined_and_def nullish_def MIN_BATCH_SIZE_def
        MAX_BATCH_SIZE_def)

lemmas step_eval = addLogEntry_def flush_def isCircuitOpen_def sendLogBatch_def
  getEstimatedMemoryUsage_def add_entry_size_def string_eval entry_def
  flush_failed_def flush_succeeded_def calculateNextRetryDelay_def openCircuit_def
  updateAverageBatchSize_def sendData_def sendSocket_def
  unix_connect_defs unix_sample_defs batch_sample_defs Let_def

lemma flush_tripped_up:
  "flush (up_at 1100) tripped =
     (Inr (),
      tripped\<lparr>batch := [], client := unix_client\<lparr>socket := True, connected := True\<rparr>,
               consecutiveFailures := 0, nextRetryDelay := 1000, circuitOpen := False,
               circuitOpenTime := None,
               stats := \<lparr> entriesProcessed = 1, batchesSent = 1, errors = 1,
                          averageBatchSize = 1, lastFlushTime = Some 1100 \<rparr>\<rparr>,
      [SendLogBatch [entry ''A''] None, Net CreateConnection,
       Net (Write (MLogBatch \<lparr>version = None, entries = [entry ''A'']\<rparr>))])"
  by (simp add: step_eval)

lemma flush_tripped_down:
  "flush (down_at 1100) tripped =
     (Inl SocketNotFound,
      tripped\<lparr>consecutiveFailures := 2, nextRetryDelay := 4000, circuitOpenTime := Some 1100,
               stats := \<lparr> entriesProcessed = 1, batchesSent = 0, errors = 2,
                          averageBatchSize = 0, lastFlushTime = None \<rparr>\<rparr>,
      [SendLogBatch [entry ''A''] (Some SocketNotFound)])"
  by (simp add: step_eval)

theorem backoff_schedule_witness:
  "newBatchClient unix_client (Some touchy_config) = Inr touchy
   \<and> initial_delay (config touchy) \<le> max_delay (config touchy)
   \<and> flush_sends (up_at 1100) tripped
   \<and> consecutiveFailures (fst (snd (flush (up_at 1100) tripped))) = 0
   \<and> nextRetryDelay (fst (snd (flush (up_at 1100) tripped))) = 1000
   \<and> fst (flush (down_at 1100) tripped) = Inl SocketNotFound
   \<and> consecutiveFailures (fst (snd (flush (down_at 1100) tripped))) = 2
   \<and> nextRetryDelay tripped = 2000
   \<and> nextRetryDelay (fst (snd (flush (down_at 1100) tripped))) = 4000
   \<and> nextRetryDelay (fst (snd (flush (down_at 1100) tripped))) \<le> 60000"
  using backoff_schedule [OF touchy_constructed, where ev = "up_at 1100"
      and xs = "[Add (up_at 1) (entry ''A''), Flush (down_at 1000)]"]
    backoff_schedule [OF touchy_constructed, where ev = "down_at 1100" and e = SocketNotFound
      and xs = "[Add (up_at 1) (entry ''A''), Flush (down_at 1000)]"]
    touchy_constructed
  by (simp add: tripped_reachable flush_tripped_up flush_tripped_down flush_sends_def
        initial_delay_def max_delay_def multiplier_def nullish_def)
     (simp add: tripped_def touchy_def touchy_config_def)

subsection \<open>The invariant of the circuit breaker\<close>

lemma circuit_inv_ctl:
  "circuit_inv (ctl s) \<longleftrightarrow>
     (circuitOpen s \<longrightarrow>
        of_nat (consecutiveFailures s) \<ge> failure_threshold (config s) \<and> circuitOpenTime s \<noteq> None)"
  by (simp add: circuit_inv_def ctl_def)

lemma net_effects_nil [simp]: "net_effects [CircuitDrop es] = []"
  by simp

subsection \<open>Order of delivery in histories of completed calls\<close>

lemma departed_append: "departed (a @ b) = departed a @ departed b"
  by (induction a rule: departed.induct) simp_all

lemma delivered_append: "delivered (a @ b) = delivered a @ delivered b"
  by (induction a rule: delivered.induct) simp_all

lemma dropped_append: "dropped (a @ b) = dropped a @ dropped b"
  by (induction a rule: dropped.induct) simp_all

lemma departed_Net [simp]: "departed (map Net ios) = []"
  by (induction ios) simp_all

lemma no_drop_departed: "dropped tr = [] \<Longrightarrow> departed tr = delivered tr"
  by (induction tr rule: departed.induct) simp_all

lemma subseq_delivered: "subseq (delivered tr) (departed tr)"
  by (induction tr rule: departed.induct)
     (simp_all add: list_emb_append2 list_emb_append_mono)

lemma flush_departed:
  "departed (snd (snd (flush ev s))) @ batch (fst (snd (flush ev s))) = batch s"
  by (cases ev s rule: flush_cases) simp_all

lemma step_departed:
  "departed (snd (step x s)) @ batch (fst (step x s)) = batch s @ accepted (stopped s) [x]"
proof (cases x)
  case (Add ev y)
  show ?thesis
  proof (cases rule: addLogEntry_cases [where s = s and ev = ev and x = y])
    case halted
    with Add show ?thesis by simp
  next
    case kept
    with Add show ?thesis by (simp add: pushed_def)
  next
    case flushed
    with Add flush_departed [of ev "pushed y s"] show ?thesis
      by (cases "flush ev (pushed y s)") (simp add: pushed_def)
  qed
next
  case (Flush ev)
  with flush_departed [of ev s] show ?thesis by (cases "flush ev s") simp
next
  case (Timer ev)
  show ?thesis
  proof (cases rule: timerFires_cases [where s = s and ev = ev])
    case idle
    with Timer show ?thesis by simp
  next
    case (quiet s1 tr)
    with Timer flush_departed [of ev s] show ?thesis by simp
  next
    case (failed e s1 tr)
    with Timer flush_departed [of ev s] show ?thesis by (simp add: departed_append)
  qed
next
  case (Stop ev)
  show ?thesis
  proof (cases rule: stop_cases [where s = s and ev = ev])
    case nothing
    with Stop show ?thesis by simp
  next
    case (quiet s4 tr)
    with Stop
      flush_departed [of ev "s\<lparr>stopped := True, flushTimer := False, exitHandlers := False\<rparr>"]
    show ?thesis by (simp add: departed_append)
  next
    case (failed e s4 tr)
    with Stop
      flush_departed [of ev "s\<lparr>stopped := True, flushTimer := False, exitHandlers := False\<rparr>"]
    show ?thesis by (simp add: departed_append)
  qed
qed

lemma step_alt:
  "step (Add ev y) s = snd (addLogEntry ev y s)"
  "step (Flush ev) s = snd (flush ev s)"
  "step (Timer ev) s = timerFires ev s"
  "step (Stop ev) s = snd (stop ev s)"
  by (simp_all split: prod.splits)

lemma step_stopped:
  "stopped (fst (step x s)) = (stopped s \<or> (\<exists>ev. x = Stop ev))"
proof (cases x)
  case (Add ev y)
  show ?thesis unfolding Add step_alt
    by (cases rule: addLogEntry_cases [where s = s and ev = ev and x = y])
       (simp_all add: pushed_def)
next
  case (Flush ev)
  show ?thesis unfolding Flush step_alt by simp
next
  case (Timer ev)
  show ?thesis unfolding Timer step_alt
    by (cases rule: timerFires_cases [where s = s and ev = ev])
       (use flush_keeps(2) [of ev s] in simp_all)
next
  case (Stop ev)
  show ?thesis unfolding Stop step_alt
    by (cases rule: stop_cases [where s = s and ev = ev])
       (use flush_keeps(2) [of ev "s\<lparr>stopped := True, flushTimer := False, exitHandlers := False\<rparr>"]
        in simp_all)
qed

lemma accepted_Cons:
  "accepted h (x # xs) = accepted h [x] @ accepted (h \<or> (\<exists>ev. x = Stop ev)) xs"
  by (cases x) simp_all

lemma run_departed:
  "departed (snd (run xs s)) @ batch (fst (run xs s)) = batch s @ accepted (stopped s) xs"
proof (induction xs arbitrary: s)
  case Nil
  show ?case by simp
next
  case (Cons x xs)
  have "departed (snd (run (x # xs) s)) @ batch (fst (run (x # xs) s))
      = departed (snd (step x s)) @
        (departed (snd (run xs (fst (step x s)))) @ batch (fst (run xs (fst (step x s)))))"
    by (simp only: fst_run_Cons snd_run_Cons departed_append append_assoc)
  also have "\<dots> = departed (snd (step x s)) @
        (batch (fst (step x s)) @ accepted (stopped (fst (step x s))) xs)"
    by (simp only: Cons.IH)
  also have "\<dots> = (batch s @ accepted (stopped s) [x]) @ accepted (stopped (fst (step x s))) xs"
    by (simp only: step_departed [symmetric] append_assoc)
  also have "\<dots> = batch s @ accepted (stopped s) (x # xs)"
    by (simp only: step_stopped accepted_Cons [of "stopped s" x xs] append_assoc)
  finally show ?case .
qed

lemma lossy_run:
  "delivered (snd (run lossy_history touchy)) = [entry ''B'']"
  "dropped (snd (run lossy_history touchy)) = [entry ''A'']"
  "batch (fst (run lossy_history touchy)) = []"
  by (simp_all add: lossy_history_def step_eval)

lemma retry_run:
  "delivered (snd (run retry_history sturdy)) = [entry ''A'', entry ''B'', entry ''C'']"
  "dropped (snd (run retry_history sturdy)) = []"
  "batch (fst (run retry_history sturdy)) = []"
  by (simp_all add: retry_history_def sturdy_def step_eval)

subsection \<open>Graceful stop\<close>



lemma no_rejection_Net [simp]: "no_rejection (map Net ios)"
  by (induction ios) simp_all










subsection \<open>Reaching more than 100 pending entries\<close>

lemma fst_run_append: "fst (run (xs @ ys) s) = fst (run ys (fst (run xs s)))"
proof (induction xs arbitrary: s)
  case Nil
  show ?case by simp
next
  case (Cons x xs)
  show ?case by (simp only: append_Cons fst_run_Cons Cons.IH)
qed

lemma quiet_adds:
  assumes "\<not> stopped s"
    and "of_nat (length (batch s) + n) < maxBatchSize (config s)"
    and "of_nat (memory_estimate (batch s) + n * entry_size x) < maxMemoryUsage (config s)"
  shows "fst (run (replicate n (Add ev x)) s) =
     s\<lparr>batch := batch s @ replicate n x,
       stats := (stats s)\<lparr>entriesProcessed := entriesProcessed (stats s) + n\<rparr>\<rparr>"
  using assms
proof (induction n arbitrary: s)
  case 0
  show ?case by simp
next
  case (Suc n)
  have small: "\<not> of_nat (length (batch s) + 1) \<ge> maxBatchSize (config s)"
  proof -
    have "(of_nat (length (batch s) + 1) :: rat) \<le> of_nat (length (batch s) + Suc n)"
      unfolding of_nat_le_iff by simp
    with Suc.prems(2) show ?thesis by simp
  qed
  have light: "\<not> of_nat (memory_estimate (batch s @ [x])) \<ge> maxMemoryUsage (config s)"
  proof -
    have "(of_nat (memory_estimate (batch s @ [x])) :: rat)
        \<le> of_nat (memory_estimate (batch s) + Suc n * entry_size x)"
      unfolding of_nat_le_iff by (simp add: memory_estimate_def)
    with Suc.prems(3) show ?thesis by simp
  qed
  have a: "addLogEntry ev x s = (Inr (), pushed x s, [])"
    using Suc.prems(1) small light
    by (simp add: addLogEntry_def pushed_def Let_def getEstimatedMemoryUsage_eq)
  have p: "\<not> stopped (pushed x s)"
    "of_nat (length (batch (pushed x s)) + n) < maxBatchSize (config (pushed x s))"
    "of_nat (memory_estimate (batch (pushed x s)) + n * entry_size x)
       < maxMemoryUsage (config (pushed x s))"
    using Suc.prems by (simp_all add: pushed_def memory_estimate_def add.commute add.left_commute)
  have "fst (run (replicate (Suc n) (Add ev x)) s) = fst (run (replicate n (Add ev x)) (pushed x s))"
    by (simp add: a)
  also have "\<dots> = (pushed x s)\<lparr>batch := batch (pushed x s) @ replicate n x,
       stats := (stats (pushed x s))\<lparr>entriesProcessed := entriesProcessed (stats (pushed x s)) + n\<rparr>\<rparr>"
    by (rule Suc.IH [OF p])
  also have "\<dots> = s\<lparr>batch := batch s @ replicate (Suc n) x,
       stats := (stats s)\<lparr>entriesProcessed := entriesProcessed (stats s) + Suc n\<rparr>\<rparr>"
    by (simp add: pushed_def replicate_app_Cons_same)
  finally show ?case .
qed

lemma fresh_constructed: "newBatchClient unix_client None = Inr fresh"
  by (simp add: newBatchClient_def fresh_def nullish_def createDefaultBatchConfig_def
        validateBatchConfig_def validateBatchBasicConfig_def validateBatchRetryConfig_def
        validateBatchCircuitBreakerConfig_def defined_and_def MIN_BATCH_SIZE_def
        MAX_BATCH_SIZE_def DEFAULT_FLUSH_INTERVAL_def DEFAULT_INITIAL_RETRY_DELAY_def
        DEFAULT_MAX_RETRY_DELAY_def DEFAULT_RETRY_BACKOFF_MULTIPLIER_def
        DEFAULT_CIRCUIT_BREAKER_FAILURE_THRESHOLD_def DEFAULT_CIRCUIT_BREAKER_OPEN_TIMEOUT_def)

lemma size_of_x: "entry_size (entry ''x'') = 201"
  by (simp add: entry_size_def entry_def string_eval)

lemma ninety_nine:
  "fst (run (replicate 99 (Add (up_at 0) (entry ''x''))) fresh) =
     fresh\<lparr>batch := replicate 99 (entry ''x''),
            stats := (stats fresh)\<lparr>entriesProcessed := 99\<rparr>\<rparr>"
proof -
  have "fst (run (replicate 99 (Add (up_at 0) (entry ''x''))) fresh) =
     fresh\<lparr>batch := batch fresh @ replicate 99 (entry ''x''),
            stats := (stats fresh)\<lparr>entriesProcessed := entriesProcessed (stats fresh) + 99\<rparr>\<rparr>"
    by (rule quiet_adds)
       (simp_all add: fresh_def createDefaultBatchConfig_def MAX_BATCH_SIZE_def size_of_x
          memory_estimate_def)
  then show ?thesis by (simp add: fresh_def)
qed

lemma hundredth_add_fails:
  "fst (step (Add (down_at 1) (entry ''x''))
         (fresh\<lparr>batch := replicate 99 (entry ''x''),
                 stats := (stats fresh)\<lparr>entriesProcessed := 99\<rparr>\<rparr>)) = full100"
proof -
  let ?s = "fresh\<lparr>batch := replicate 99 (entry ''x''),
                 stats := (stats fresh)\<lparr>entriesProcessed := 99\<rparr>\<rparr>"
  have l: "length (batch (pushed (entry ''x'') ?s)) = 100" by (simp add: pushed_def)
  have "replicate 99 (entry ''x'') @ [entry ''x''] = replicate (Suc 99) (entry ''x'')"
    by (simp only: replicate_append_same replicate_Suc)
  also have "Suc 99 = 100" by simp
  finally have rr: "replicate 99 (entry ''x'') @ [entry ''x''] = replicate 100 (entry ''x'')" .
  have r: "batch (pushed (entry ''x'') ?s) = replicate 100 (entry ''x'')"
    by (simp add: pushed_def rr del: replicate_append_same)
  have a: "addLogEntry (down_at 1) (entry ''x'') ?s = flush (down_at 1) (pushed (entry ''x'') ?s)"
    by (simp add: addLogEntry_def pushed_def Let_def fresh_def createDefaultBatchConfig_def
          MAX_BATCH_SIZE_def)
  have g: "\<not> gate_blocks (clock_gate (down_at 1)) (pushed (entry ''x'') ?s)"
    by (simp add: gate_blocks_iff pushed_def fresh_def)
  have sl: "sendLogBatch (transport (down_at 1)) (outgoing (pushed (entry ''x'') ?s))
              (client (pushed (entry ''x'') ?s)) = (Inl SocketNotFound, unix_client, [])"
    by (simp add: sendLogBatch_def outgoing_def unix_connect_defs down_at_def net_down_def
          pushed_def fresh_def unix_client_def createDefaultConfig_def)
  have "flush (down_at 1) (pushed (entry ''x'') ?s) =
      (Inl SocketNotFound,
       flush_failed (clock_done (down_at 1)) (batch (pushed (entry ''x'') ?s))
         ((gate_passed (clock_gate (down_at 1)) (pushed (entry ''x'') ?s))
            \<lparr>batch := [], client := unix_client\<rparr>),
       [SendLogBatch (batch (pushed (entry ''x'') ?s)) (Some SocketNotFound)])"
    using g sl l by (cases "down_at 1" "pushed (entry ''x'') ?s" rule: flush_cases) auto
  then show ?thesis
    unfolding step_alt a r
    by (simp add: flush_failed_def calculateNextRetryDelay_def openCircuit_def Let_def
          gate_passed_eq pushed_def full100_def fresh_def batch_sample_defs)
qed

lemma full100_reachable:
  "fst (run (replicate 99 (Add (up_at 0) (entry ''x'')) @ [Add (down_at 1) (entry ''x'')]) fresh)
     = full100"
  by (simp only: fst_run_append ninety_nine fst_run_Cons run.simps(1) fst_conv
        hundredth_add_fails)

lemma overfull_flushed:
  "addLogEntry (up_at 5) (entry ''x'') full100 = flush (up_at 5) overfull"
  by (simp add: addLogEntry_def overfull_def pushed_def Let_def full100_def fresh_def
        createDefaultBatchConfig_def MAX_BATCH_SIZE_def)

text \<open>Claim C5 as stated fails. A client with the default configuration receives 100
  entries while the agent is down: the flush triggered by the hundredth entry fails
  and restores them. The next \<^verbatim>\<open>addLogEntry\<close>, with the network up, flushes 101 entries:
  the flush is rejected by the size validation without any socket operation, and the
  number of consecutive failures goes from 1 to 2 and the retry delay from 1000 to
  2000.\<close>

theorem validation_counts_as_failure_counterexample:
  "newBatchClient unix_client None = Inr fresh
   \<and> fst (run (replicate 99 (Add (up_at 0) (entry ''x'')) @ [Add (down_at 1) (entry ''x'')])
           fresh) = full100
   \<and> addLogEntry (up_at 5) (entry ''x'') full100 = flush (up_at 5) overfull
   \<and> fst (flush (up_at 5) overfull) = Inl BatchTooLarge
   \<and> net_effects (snd (snd (flush (up_at 5) overfull))) = []
   \<and> consecutiveFailures full100 = 1
   \<and> consecutiveFailures (fst (snd (flush (up_at 5) overfull))) = 2
   \<and> nextRetryDelay full100 = 1000
   \<and> nextRetryDelay (fst (snd (flush (up_at 5) overfull))) = 2000"
proof -
  have "fst (flush (up_at 5) overfull) = Inl BatchTooLarge
   \<and> net_effects (snd (snd (flush (up_at 5) overfull))) = []
   \<and> consecutiveFailures full100 = 1
   \<and> consecutiveFailures (fst (snd (flush (up_at 5) overfull))) = 2
   \<and> nextRetryDelay full100 = 1000
   \<and> nextRetryDelay (fst (snd (flush (up_at 5) overfull))) = 2000"
    using flush_too_large [of overfull "up_at 5"]
    by (simp add: overfull_facts) (simp add: batch_sample_defs)
  with fresh_constructed full100_reachable overfull_flushed show ?thesis by blast
qed

section \<open>Proofs: calls that overlap\<close>

subsection \<open>The two halves of a flush\<close>

lemma flush_begin_cases [case_names idle dropping sending]:
  obtains
    (idle) "batch s = []" "flush_begin now s = (s, Idle)"
  | (dropping) "batch s \<noteq> []" "gate_blocks now s"
      "flush_begin now s = (s\<lparr>batch := []\<rparr>, Dropping (batch s))"
  | (sending) "batch s \<noteq> []" "\<not> gate_blocks now s"
      "flush_begin now s = ((gate_passed now s)\<lparr>batch := []\<rparr>, Sending (batch s))"
proof (cases "batch s = []")
  case True
  then show ?thesis using idle by (simp add: flush_begin_def)
next
  case nonempty: False
  show ?thesis
  proof (cases "gate_blocks now s")
    case True
    with nonempty have "flush_begin now s = (s\<lparr>batch := []\<rparr>, Dropping (batch s))"
      by (simp add: flush_begin_def isCircuitOpen_eq gate_passed_eq)
    with nonempty True show ?thesis using dropping by blast
  next
    case False
    with nonempty
    have "flush_begin now s = ((gate_passed now s)\<lparr>batch := []\<rparr>, Sending (batch s))"
      by (simp add: flush_begin_def isCircuitOpen_eq)
    with nonempty False show ?thesis using sending by blast
  qed
qed

lemma flush_settle_cases [case_names sent rejected]:
  obtains
    (sent) c ios where
      "flush_settle n now bs s =
         (Inr (), flush_succeeded now bs (s\<lparr>client := c\<rparr>), SendLogBatch bs None # map Net ios)"
  | (rejected) e c ios where
      "flush_settle n now bs s =
         (Inl e, flush_failed now bs (s\<lparr>client := c\<rparr>),
          SendLogBatch bs (Some e) # map Net ios)"
proof -
  obtain r c ios where
    k: "sendLogBatch n \<lparr>version = None, entries = bs\<rparr> (client s) = (r, c, ios)"
    by (cases "sendLogBatch n \<lparr>version = None, entries = bs\<rparr> (client s)")
  show ?thesis
  proof (cases r)
    case (Inl e)
    with k show ?thesis using rejected [of e c ios] by (simp add: flush_settle_def)
  next
    case (Inr u)
    with k show ?thesis using sent [of c ios] by (simp add: flush_settle_def)
  qed
qed

text \<open>A flush completed in one step is its first half followed at once by its second
  half.\<close>

lemma flush_halves:
  "flush ev s =
     (case flush_begin (clock_gate ev) s of
        (s1, Idle) \<Rightarrow> (Inr (), s1, [])
      | (s1, Dropping es) \<Rightarrow> (Inr (), s1, [CircuitDrop es])
      | (s1, Sending bs) \<Rightarrow> flush_settle (transport ev) (clock_done ev) bs s1)"
  by (simp add: flush_def flush_begin_def flush_settle_def Let_def split: prod.splits bool.splits)

lemma start_flush_cases [case_names idle dropping sending]:
  obtains
    (idle) "batch (obj g) = []"
      "start_flush now w g = (g\<lparr>tasks := tasks g @ [Settled None w]\<rparr>, [])"
  | (dropping) "batch (obj g) \<noteq> []" "gate_blocks now (obj g)"
      "start_flush now w g =
         (g\<lparr>obj := (obj g)\<lparr>batch := []\<rparr>, tasks := tasks g @ [Settled None w]\<rparr>,
          [CircuitDrop (batch (obj g))])"
  | (sending) "batch (obj g) \<noteq> []" "\<not> gate_blocks now (obj g)"
      "start_flush now w g =
         (g\<lparr>obj := (gate_passed now (obj g))\<lparr>batch := []\<rparr>,
            tasks := tasks g @ [InFlight (batch (obj g)) w]\<rparr>, [])"
proof (cases rule: flush_begin_cases [where s = "obj g" and now = now])
  case idle
  then show ?thesis using that(1) by (simp add: start_flush_def)
next
  case dropping
  then show ?thesis using that(2) by (simp add: start_flush_def)
next
  case sending
  then show ?thesis using that(3) by (simp add: start_flush_def)
qed

subsection \<open>Tasks\<close>

lemma cargo_filter: "concat (map cargo (filter is_flight ts)) = concat (map cargo ts)"
proof (induction ts)
  case Nil
  show ?case by simp
next
  case (Cons t ts)
  then show ?case by (cases t) simp_all
qed

lemma in_flight_alt: "in_flight g = concat (map cargo (filter is_flight (tasks g)))"
  by (simp add: in_flight_def cargo_filter)

lemma without_split:
  assumes "i < length ts"
  shows "ts = take i ts @ [ts ! i] @ drop (Suc i) ts"
  using assms by (simp add: id_take_nth_drop [symmetric])

lemma sole_flight:
  assumes "i < length ts" "ts ! i = InFlight bs w" "length (filter is_flight ts) \<le> 1"
  shows "filter is_flight ts = [InFlight bs w]" "filter is_flight (without i ts) = []"
proof -
  have "filter is_flight ts =
      filter is_flight (take i ts) @ [InFlight bs w] @ filter is_flight (drop (Suc i) ts)"
    by (subst without_split [OF assms(1)]) (simp add: assms(2))
  moreover from this assms(3)
  have "filter is_flight (take i ts) = [] \<and> filter is_flight (drop (Suc i) ts) = []"
    by simp
  ultimately show "filter is_flight ts = [InFlight bs w]"
    "filter is_flight (without i ts) = []"
    by (simp_all add: without_def)
qed

lemma cargo_without:
  assumes "i < length ts"
  shows "mset (concat (map cargo ts)) =
         mset (cargo (ts ! i)) + mset (concat (map cargo (without i ts)))"
  by (subst without_split [OF assms]) (simp add: without_def)


subsection \<open>What one event does\<close>

lemma gate_by_ctl:
  assumes "ctl s = ctl t"
  shows "gate_blocks now s = gate_blocks now t"
    and "ctl (gate_passed now s) = ctl (gate_passed now t)"
proof -
  from assms have f: "config s = config t" "circuitOpen s = circuitOpen t"
    "circuitOpenTime s = circuitOpenTime t" "consecutiveFailures s = consecutiveFailures t"
    "nextRetryDelay s = nextRetryDelay t"
    by (simp_all add: ctl_def)
  show a: "gate_blocks now s = gate_blocks now t"
    by (simp add: gate_blocks_iff f cong: option.case_cong)
  show "ctl (gate_passed now s) = ctl (gate_passed now t)"
    by (simp add: gate_passed_eq ctl_def f a)
qed

lemma start_flush_summary [case_names quiet drop launch]:
  assumes o: "occur x g = start_flush now w h"
    and c: "ctl (obj h) = ctl (obj g)"
    and t: "tasks h = tasks g"
    and b: "batch (obj h) = batch (obj g) @ taken (stopped (obj g)) [x]"
  obtains
    (quiet) "departed (snd (occur x g)) = []"
      "batch (obj (fst (occur x g))) = batch (obj g) @ taken (stopped (obj g)) [x]"
      "ctl (obj (fst (occur x g))) = ctl (obj g)"
      "filter is_flight (tasks (fst (occur x g))) = filter is_flight (tasks g)"
  | (drop) "gate_blocks now (obj g)"
      "snd (occur x g) = [CircuitDrop (batch (obj g) @ taken (stopped (obj g)) [x])]"
      "batch (obj (fst (occur x g))) = []"
      "ctl (obj (fst (occur x g))) = ctl (obj g)"
      "filter is_flight (tasks (fst (occur x g))) = filter is_flight (tasks g)"
  | (launch) "\<not> gate_blocks now (obj g)"
      "snd (occur x g) = []"
      "batch (obj (fst (occur x g))) = []"
      "ctl (obj (fst (occur x g))) = ctl (gate_passed now (obj g))"
      "tasks (fst (occur x g)) = tasks g @ [InFlight (batch (obj g) @ taken (stopped (obj g)) [x]) w]"
proof (cases rule: start_flush_cases [where g = h and now = now and w = w])
  case idle
  show ?thesis
    by (rule quiet) (use idle b c t in \<open>simp_all add: o\<close>)
next
  case dropping
  show ?thesis
    by (rule drop) (use dropping b c t gate_by_ctl(1) [OF c] in \<open>simp_all add: o\<close>)
next
  case sending
  show ?thesis
    by (rule launch)
       (use sending b c t gate_by_ctl(1) [OF c] gate_by_ctl(2) [OF c] in \<open>simp_all add: o\<close>)
qed

lemma resume_quiet:
  "departed (snd (resume r w s)) = []"
  "batch (fst (resume r w s)) = batch s"
  "ctl (fst (resume r w s)) = ctl s"
  "stopped (fst (resume r w s)) = stopped s"
  by (simp_all add: resume_def close_client_def split: waiter.splits option.splits prod.splits)

lemma occur_cases [case_names quiet drop launch landed crashed]:
  obtains
    (quiet) "departed (snd (occur x g)) = []"
      "batch (obj (fst (occur x g))) = batch (obj g) @ taken (stopped (obj g)) [x]"
      "ctl (obj (fst (occur x g))) = ctl (obj g)"
      "filter is_flight (tasks (fst (occur x g))) = filter is_flight (tasks g)"
  | (drop) now where "gate_blocks now (obj g)"
      "snd (occur x g) = [CircuitDrop (batch (obj g) @ taken (stopped (obj g)) [x])]"
      "batch (obj (fst (occur x g))) = []"
      "ctl (obj (fst (occur x g))) = ctl (obj g)"
      "filter is_flight (tasks (fst (occur x g))) = filter is_flight (tasks g)"
  | (launch) now w where "\<not> gate_blocks now (obj g)"
      "snd (occur x g) = []"
      "batch (obj (fst (occur x g))) = []"
      "ctl (obj (fst (occur x g))) = ctl (gate_passed now (obj g))"
      "tasks (fst (occur x g)) = tasks g @ [InFlight (batch (obj g) @ taken (stopped (obj g)) [x]) w]"
  | (landed) i n now bs w c ios where
      "x = Settle i n now" "i < length (tasks g)" "tasks g ! i = InFlight bs w"
      "fst (flush_settle n now bs (obj g)) = Inr ()"
      "occur x g =
         (g\<lparr>obj := flush_succeeded now bs ((obj g)\<lparr>client := c\<rparr>),
            tasks := without i (tasks g) @ [Settled None w]\<rparr>,
          SendLogBatch bs None # map Net ios)"
  | (crashed) i n now bs w e c ios where
      "x = Settle i n now" "i < length (tasks g)" "tasks g ! i = InFlight bs w"
      "fst (flush_settle n now bs (obj g)) = Inl e"
      "occur x g =
         (g\<lparr>obj := flush_failed now bs ((obj g)\<lparr>client := c\<rparr>),
            tasks := without i (tasks g) @ [Settled (Some e) w]\<rparr>,
          SendLogBatch bs (Some e) # map Net ios)"
proof (cases x)
  case (CallAdd now entry)
  show ?thesis
  proof (cases "stopped (obj g)")
    case True
    show ?thesis by (rule quiet) (simp_all add: CallAdd True)
  next
    case running: False
    show ?thesis
    proof (cases "of_nat (length (batch (pushed entry (obj g))))
                    \<ge> maxBatchSize (config (pushed entry (obj g)))
                  \<or> of_nat (getEstimatedMemoryUsage (pushed entry (obj g)))
                    \<ge> maxMemoryUsage (config (pushed entry (obj g)))")
      case False
      then have o: "occur x g = (g\<lparr>obj := pushed entry (obj g)\<rparr>, [])"
        using running by (simp add: CallAdd pushed_def Let_def)
      show ?thesis
        by (rule quiet) (simp_all add: o, simp_all add: CallAdd running pushed_def)
    next
      case True
      then have o: "occur x g = start_flush now Caller (g\<lparr>obj := pushed entry (obj g)\<rparr>)"
        using running by (auto simp: CallAdd pushed_def Let_def)
      have b: "batch (obj (g\<lparr>obj := pushed entry (obj g)\<rparr>)) = batch (obj g) @ taken (stopped (obj g)) [x]"
        by (simp add: CallAdd running pushed_def)
      have c: "ctl (obj (g\<lparr>obj := pushed entry (obj g)\<rparr>)) = ctl (obj g)" by simp
      have t: "tasks (g\<lparr>obj := pushed entry (obj g)\<rparr>) = tasks g" by simp
      show ?thesis
        by (rule start_flush_summary [OF o c t b]) (rule quiet drop launch; assumption)+
    qed
  qed
next
  case (CallFlush now)
  have o: "occur x g = start_flush now Caller g" by (simp add: CallFlush)
  have b: "batch (obj g) = batch (obj g) @ taken (stopped (obj g)) [x]" by (simp add: CallFlush)
  show ?thesis
    by (rule start_flush_summary [OF o refl refl b]) (rule quiet drop launch; assumption)+
next
  case (TimerFires now)
  show ?thesis
  proof (cases "flushTimer (obj g) \<and> \<not> stopped (obj g) \<and> batch (obj g) \<noteq> []")
    case False
    then have o: "occur x g = (g, [])" by (auto simp: TimerFires Let_def)
    show ?thesis by (rule quiet) (simp_all add: o, simp add: TimerFires)
  next
    case True
    then have o: "occur x g = start_flush now TimerCatch g" by (simp add: TimerFires Let_def)
    have b: "batch (obj g) = batch (obj g) @ taken (stopped (obj g)) [x]" by (simp add: TimerFires)
    show ?thesis
      by (rule start_flush_summary [OF o refl refl b]) (rule quiet drop launch; assumption)+
  qed
next
  case (CallStop now)
  define s3 where "s3 = (obj g)\<lparr>stopped := True, flushTimer := False, exitHandlers := False\<rparr>"
  show ?thesis
  proof (cases "batch (obj g) = []")
    case True
    then have o: "occur x g =
        (g\<lparr>obj := fst (close_client s3)\<rparr>, snd (close_client s3))"
      by (simp add: CallStop Let_def s3_def split: prod.splits)
    show ?thesis
      by (rule quiet)
         (simp_all add: o, simp_all add: close_client_def s3_def True CallStop split: prod.splits)
  next
    case False
    then have o: "occur x g = start_flush now StopTail (g\<lparr>obj := s3\<rparr>)"
      by (simp add: CallStop Let_def s3_def)
    have b: "batch (obj (g\<lparr>obj := s3\<rparr>)) = batch (obj g) @ taken (stopped (obj g)) [x]"
      by (simp add: CallStop s3_def)
    have c: "ctl (obj (g\<lparr>obj := s3\<rparr>)) = ctl (obj g)" by (simp add: s3_def)
    have t: "tasks (g\<lparr>obj := s3\<rparr>) = tasks g" by simp
    show ?thesis
      by (rule start_flush_summary [OF o c t b]) (rule quiet drop launch; assumption)+
  qed
next
  case (Settle i n now)
  show ?thesis
  proof (cases "i < length (tasks g)")
    case False
    then have o: "occur x g = (g, [])" by (simp add: Settle)
    show ?thesis by (rule quiet) (simp_all add: o, simp add: Settle)
  next
    case inside: True
    show ?thesis
    proof (cases "tasks g ! i")
      case (Settled r w)
      then have o: "occur x g = (g, [])" by (simp add: Settle)
      show ?thesis by (rule quiet) (simp_all add: o, simp add: Settle)
    next
      case (InFlight bs w)
      show ?thesis
      proof (cases rule: flush_settle_cases [where n = n and now = now and bs = bs and s = "obj g"])
        case (sent c ios)
        have a: "fst (flush_settle n now bs (obj g)) = Inr ()" by (simp add: sent)
        have o: "occur x g =
            (g\<lparr>obj := flush_succeeded now bs ((obj g)\<lparr>client := c\<rparr>),
               tasks := without i (tasks g) @ [Settled None w]\<rparr>,
             SendLogBatch bs None # map Net ios)"
          by (simp add: sent Settle inside InFlight)
        show ?thesis by (rule landed [OF Settle inside InFlight a o])
      next
        case (rejected e c ios)
        have a: "fst (flush_settle n now bs (obj g)) = Inl e" by (simp add: rejected)
        have o: "occur x g =
            (g\<lparr>obj := flush_failed now bs ((obj g)\<lparr>client := c\<rparr>),
               tasks := without i (tasks g) @ [Settled (Some e) w]\<rparr>,
             SendLogBatch bs (Some e) # map Net ios)"
          by (simp add: rejected Settle inside InFlight)
        show ?thesis by (rule crashed [OF Settle inside InFlight a o])
      qed
    qed
  qed
next
  case (Resume i)
  show ?thesis
  proof (cases "i < length (tasks g)")
    case False
    then have o: "occur x g = (g, [])" by (simp add: Resume)
    show ?thesis by (rule quiet) (simp_all add: o, simp add: Resume)
  next
    case inside: True
    show ?thesis
    proof (cases "tasks g ! i")
      case (InFlight bs w)
      then have o: "occur x g = (g, [])" using inside by (simp add: Resume)
      show ?thesis by (rule quiet) (simp_all add: o, simp add: Resume)
    next
      case (Settled r w)
      then have o: "occur x g =
          (g\<lparr>obj := fst (resume r w (obj g)), tasks := without i (tasks g)\<rparr>,
           snd (resume r w (obj g)))"
        using inside by (simp add: Resume split: prod.splits)
      have "\<not> is_flight (tasks g ! i)" by (simp add: Settled)
      then have f: "filter is_flight (without i (tasks g)) = filter is_flight (tasks g)"
        by (subst (2) without_split [OF inside]) (simp add: without_def)
      show ?thesis
        by (rule quiet) (simp_all add: o resume_quiet f, simp add: Resume)
    qed
  qed
qed

lemma start_flush_stopped:
  "stopped (obj (fst (start_flush now w h))) = stopped (obj h)"
  by (cases rule: start_flush_cases [where g = h and now = now and w = w]) simp_all

lemma occur_stopped:
  "stopped (obj (fst (occur x g))) = (stopped (obj g) \<or> (\<exists>now. x = CallStop now))"
proof (cases x)
  case (CallAdd now entry)
  show ?thesis by (simp add: CallAdd Let_def start_flush_stopped)
next
  case (CallFlush now)
  show ?thesis by (simp add: CallFlush start_flush_stopped)
next
  case (TimerFires now)
  show ?thesis by (simp add: TimerFires Let_def start_flush_stopped)
next
  case (CallStop now)
  show ?thesis
    by (simp add: CallStop Let_def start_flush_stopped close_client_def split: prod.splits)
next
  case (Settle i n now)
  show ?thesis
  proof (cases "i < length (tasks g)")
    case False
    then show ?thesis by (simp add: Settle)
  next
    case inside: True
    show ?thesis
    proof (cases "tasks g ! i")
      case (Settled r w)
      then show ?thesis by (simp add: Settle)
    next
      case (InFlight bs w)
      show ?thesis
        by (cases rule: flush_settle_cases [where n = n and now = now and bs = bs and s = "obj g"])
           (simp_all add: Settle inside InFlight)
    qed
  qed
next
  case (Resume i)
  show ?thesis
  proof (cases "tasks g ! i")
    case (InFlight bs w)
    then show ?thesis by (simp add: Resume)
  next
    case (Settled r w)
    obtain s1 tr where k: "resume r w (obj g) = (s1, tr)"
      by (cases "resume r w (obj g)")
    from resume_quiet(4) [of r w "obj g"] k have "stopped s1 = stopped (obj g)" by simp
    then show ?thesis by (simp add: Resume Settled k)
  qed
qed


subsection \<open>Schedules\<close>

lemma fst_play_Cons: "fst (play (x # xs) g) = fst (play xs (fst (occur x g)))"
  by (simp split: prod.splits)

lemma snd_play_Cons:
  "snd (play (x # xs) g) = snd (occur x g) @ snd (play xs (fst (occur x g)))"
  by (simp split: prod.splits)

lemma taken_Cons:
  "taken h (x # xs) = taken h [x] @ taken (h \<or> (\<exists>now. x = CallStop now)) xs"
  by (cases x) simp_all

lemma one_at_a_time_flights: "one_at_a_time xs g \<Longrightarrow> flights g \<le> 1"
  by (cases xs) simp_all

lemma ctl_fields:
  assumes "ctl s = ctl t"
  shows "config s = config t" "consecutiveFailures s = consecutiveFailures t"
    "nextRetryDelay s = nextRetryDelay t" "circuitOpen s = circuitOpen t"
    "circuitOpenTime s = circuitOpenTime t"
  using assms by (simp_all add: ctl_def)

text \<open>In every schedule the entries are conserved: what left the buffer, what is in
  flight and what is pending are together what was pending and what was pushed.\<close>

lemma occur_count:
  "mset (departed (snd (occur x g))) + mset (in_flight (fst (occur x g)))
     + mset (batch (obj (fst (occur x g))))
   = mset (in_flight g) + mset (batch (obj g)) + mset (taken (stopped (obj g)) [x])"
proof (cases rule: occur_cases [where x = x and g = g])
  case quiet
  then show ?thesis by (simp add: in_flight_alt)
next
  case (drop now)
  then show ?thesis by (simp add: in_flight_alt)
next
  case (launch now w)
  then show ?thesis by (simp add: in_flight_def)
next
  case (landed i n now bs w c ios)
  from cargo_without [OF landed(2)] landed(3)
  have "mset (in_flight g) = mset bs + mset (concat (map cargo (without i (tasks g))))"
    by (simp add: in_flight_def)
  moreover have "taken (stopped (obj g)) [x] = []" by (simp add: landed(1))
  ultimately show ?thesis unfolding landed(5) by (simp add: in_flight_def)
next
  case (crashed i n now bs w e c ios)
  from cargo_without [OF crashed(2)] crashed(3)
  have "mset (in_flight g) = mset bs + mset (concat (map cargo (without i (tasks g))))"
    by (simp add: in_flight_def)
  moreover have "taken (stopped (obj g)) [x] = []" by (simp add: crashed(1))
  ultimately show ?thesis unfolding crashed(5) by (simp add: in_flight_def)
qed

lemma play_count:
  "mset (departed (snd (play xs g))) + mset (in_flight (fst (play xs g)))
     + mset (batch (obj (fst (play xs g))))
   = mset (in_flight g) + mset (batch (obj g)) + mset (taken (stopped (obj g)) xs)"
proof (induction xs arbitrary: g)
  case Nil
  show ?case by simp
next
  case (Cons x xs)
  have "mset (departed (snd (play (x # xs) g))) + mset (in_flight (fst (play (x # xs) g)))
          + mset (batch (obj (fst (play (x # xs) g))))
      = mset (departed (snd (occur x g)))
          + (mset (departed (snd (play xs (fst (occur x g)))))
             + mset (in_flight (fst (play xs (fst (occur x g)))))
             + mset (batch (obj (fst (play xs (fst (occur x g)))))))"
    by (simp only: fst_play_Cons snd_play_Cons departed_append mset_append add.assoc)
  also have "\<dots> = mset (departed (snd (occur x g)))
          + (mset (in_flight (fst (occur x g))) + mset (batch (obj (fst (occur x g))))
             + mset (taken (stopped (obj (fst (occur x g)))) xs))"
    by (simp only: Cons.IH)
  also have "\<dots> = (mset (departed (snd (occur x g))) + mset (in_flight (fst (occur x g)))
             + mset (batch (obj (fst (occur x g)))))
          + mset (taken (stopped (obj (fst (occur x g)))) xs)"
    by (simp only: add.assoc)
  also have "\<dots> = (mset (in_flight g) + mset (batch (obj g)) + mset (taken (stopped (obj g)) [x]))
          + mset (taken (stopped (obj (fst (occur x g)))) xs)"
    by (simp only: occur_count)
  also have "\<dots> = mset (in_flight g) + mset (batch (obj g))
          + mset (taken (stopped (obj g)) (x # xs))"
    by (simp only: occur_stopped taken_Cons [of "stopped (obj g)" x xs] mset_append add.assoc)
  finally show ?case .
qed

text \<open>While at most one flush is in flight, the circuit is closed during the flight,
  the order of the entries is kept, and an open circuit has seen as many failures as
  the threshold asks for.\<close>

lemma occur_serial:
  assumes one: "flights g \<le> 1" and one': "flights (fst (occur x g)) \<le> 1"
    and closed: "flights g = 1 \<longrightarrow> \<not> circuitOpen (obj g)"
  shows "departed (snd (occur x g)) @ in_flight (fst (occur x g))
           @ batch (obj (fst (occur x g)))
         = in_flight g @ batch (obj g) @ taken (stopped (obj g)) [x]"
    and "flights (fst (occur x g)) = 1 \<longrightarrow> \<not> circuitOpen (obj (fst (occur x g)))"
    and "circuit_inv (ctl (obj g)) \<longrightarrow> circuit_inv (ctl (obj (fst (occur x g))))"
proof -
  have "(departed (snd (occur x g)) @ in_flight (fst (occur x g))
           @ batch (obj (fst (occur x g)))
         = in_flight g @ batch (obj g) @ taken (stopped (obj g)) [x])
      \<and> (flights (fst (occur x g)) = 1 \<longrightarrow> \<not> circuitOpen (obj (fst (occur x g))))
      \<and> (circuit_inv (ctl (obj g)) \<longrightarrow> circuit_inv (ctl (obj (fst (occur x g)))))"
  proof (cases rule: occur_cases [where x = x and g = g])
    case quiet
    from closed quiet ctl_fields(4) [OF quiet(3)] show ?thesis
      by (simp add: in_flight_alt flights_def)
  next
    case (drop now)
    from drop(1) have "circuitOpen (obj g)" by (simp add: gate_blocks_iff)
    with closed one have "filter is_flight (tasks g) = []"
      by (auto simp: flights_def le_Suc_eq)
    with drop show ?thesis by (simp add: in_flight_alt flights_def)
  next
    case (launch now w)
    from one' have "filter is_flight (tasks g) = []" by (simp add: flights_def launch(5))
    moreover have "\<not> circuitOpen (obj (fst (occur x g)))"
      using ctl_fields(4) [OF launch(4)] gate_passed_closed [OF launch(1)] by simp
    ultimately show ?thesis
      using launch(2,3,5) cargo_filter [of "tasks g"]
      by (simp add: in_flight_def circuit_inv_ctl)
  next
    case (landed i n now bs w c ios)
    from one have "length (filter is_flight (tasks g)) \<le> 1" by (simp add: flights_def)
    note sole = sole_flight [OF landed(2,3) this]
    from sole(1) closed have "\<not> circuitOpen (obj g)" by (simp add: flights_def)
    moreover have "taken (stopped (obj g)) [x] = []" by (simp add: landed(1))
    ultimately show ?thesis using sole unfolding landed(5)
      by (simp add: in_flight_alt flights_def circuit_inv_ctl)
  next
    case (crashed i n now bs w e c ios)
    from one have "length (filter is_flight (tasks g)) \<le> 1" by (simp add: flights_def)
    note sole = sole_flight [OF crashed(2,3) this]
    from sole(1) closed have "\<not> circuitOpen (obj g)" by (simp add: flights_def)
    moreover have "taken (stopped (obj g)) [x] = []" by (simp add: crashed(1))
    ultimately show ?thesis using sole unfolding crashed(5)
      by (simp add: in_flight_alt flights_def circuit_inv_ctl
            flush_failed_circuit failure_threshold_def)
  qed
  then show
    "departed (snd (occur x g)) @ in_flight (fst (occur x g))
           @ batch (obj (fst (occur x g)))
         = in_flight g @ batch (obj g) @ taken (stopped (obj g)) [x]"
    "flights (fst (occur x g)) = 1 \<longrightarrow> \<not> circuitOpen (obj (fst (occur x g)))"
    "circuit_inv (ctl (obj g)) \<longrightarrow> circuit_inv (ctl (obj (fst (occur x g))))"
    by simp_all
qed

lemma play_serial:
  assumes "one_at_a_time xs g" "flights g = 1 \<longrightarrow> \<not> circuitOpen (obj g)"
  shows "departed (snd (play xs g)) @ in_flight (fst (play xs g))
           @ batch (obj (fst (play xs g)))
         = in_flight g @ batch (obj g) @ taken (stopped (obj g)) xs
      \<and> flights (fst (play xs g)) \<le> 1
      \<and> (flights (fst (play xs g)) = 1 \<longrightarrow> \<not> circuitOpen (obj (fst (play xs g))))
      \<and> (circuit_inv (ctl (obj g)) \<longrightarrow> circuit_inv (ctl (obj (fst (play xs g)))))"
  using assms
proof (induction xs arbitrary: g)
  case Nil
  then show ?case by simp
next
  case (Cons x xs)
  let ?g = "fst (occur x g)"
  from Cons.prems(1) have one: "flights g \<le> 1" and rest: "one_at_a_time xs ?g" by simp_all
  from rest have one': "flights ?g \<le> 1" by (rule one_at_a_time_flights)
  note st = occur_serial [OF one one' Cons.prems(2)]
  note ih = Cons.IH [OF rest st(2)]
  have "departed (snd (play (x # xs) g)) @ in_flight (fst (play (x # xs) g))
          @ batch (obj (fst (play (x # xs) g)))
      = departed (snd (occur x g))
          @ (departed (snd (play xs ?g)) @ in_flight (fst (play xs ?g))
             @ batch (obj (fst (play xs ?g))))"
    by (simp only: fst_play_Cons snd_play_Cons departed_append append_assoc)
  also have "\<dots> = departed (snd (occur x g))
          @ (in_flight ?g @ batch (obj ?g) @ taken (stopped (obj ?g)) xs)"
    using ih by simp
  also have "\<dots> = (departed (snd (occur x g)) @ in_flight ?g @ batch (obj ?g))
          @ taken (stopped (obj ?g)) xs"
    by (simp only: append_assoc)
  also have "\<dots> = (in_flight g @ batch (obj g) @ taken (stopped (obj g)) [x])
          @ taken (stopped (obj ?g)) xs"
    by (simp only: st(1))
  also have "\<dots> = in_flight g @ batch (obj g) @ taken (stopped (obj g)) (x # xs)"
    by (simp only: occur_stopped taken_Cons [of "stopped (obj g)" x xs] append_assoc)
  finally have a: "departed (snd (play (x # xs) g)) @ in_flight (fst (play (x # xs) g))
          @ batch (obj (fst (play (x # xs) g)))
      = in_flight g @ batch (obj g) @ taken (stopped (obj g)) (x # xs)" .
  from ih st(3) have b: "flights (fst (play (x # xs) g)) \<le> 1"
    "flights (fst (play (x # xs) g)) = 1 \<longrightarrow> \<not> circuitOpen (obj (fst (play (x # xs) g)))"
    "circuit_inv (ctl (obj g)) \<longrightarrow> circuit_inv (ctl (obj (fst (play (x # xs) g))))"
    by (simp_all only: fst_play_Cons) blast+
  from a b show ?case by blast
qed





subsection \<open>Sample schedules\<close>

lemmas play_eval = start_flush_def flush_begin_def flush_settle_def resume_def
  close_client_def without_def at_rest_def in_flight_def flights_def isCircuitOpen_def
  sendLogBatch_def getEstimatedMemoryUsage_def add_entry_size_def string_eval entry_def
  flush_failed_def flush_succeeded_def calculateNextRetryDelay_def openCircuit_def
  updateAverageBatchSize_def sendData_def sendSocket_def unix_connect_defs
  unix_sample_defs batch_sample_defs Let_def net_refused_def wary_def sturdy_def

lemma fst_play_append: "fst (play (xs @ ys) g) = fst (play ys (fst (play xs g)))"
proof (induction xs arbitrary: g)
  case Nil
  show ?case by simp
next
  case (Cons x xs)
  show ?case by (simp only: append_Cons fst_play_Cons Cons.IH)
qed

lemma snd_play_append:
  "snd (play (xs @ ys) g) = snd (play xs g) @ snd (play ys (fst (play xs g)))"
proof (induction xs arbitrary: g)
  case Nil
  show ?case by simp
next
  case (Cons x xs)
  show ?case by (simp only: append_Cons fst_play_Cons snd_play_Cons Cons.IH append_assoc)
qed


lemma overtaking_run:
  "delivered (snd (play overtaking (at_rest sturdy))) = [entry ''C'', entry ''A'', entry ''B'']"
  "dropped (snd (play overtaking (at_rest sturdy))) = []"
  "batch (obj (fst (play overtaking (at_rest sturdy)))) = []"
  "in_flight (fst (play overtaking (at_rest sturdy))) = []"
  by (simp_all add: overtaking_def play_eval)

lemma patient_run:
  "delivered (snd (play patient (at_rest sturdy))) = [entry ''A'', entry ''B'', entry ''C'']"
  "dropped (snd (play patient (at_rest sturdy))) = []"
  "batch (obj (fst (play patient (at_rest sturdy)))) = []"
  "in_flight (fst (play patient (at_rest sturdy))) = []"
  "one_at_a_time patient (at_rest sturdy)"
  by (simp_all add: patient_def play_eval)





subsection \<open>Order of delivery\<close>

lemma delivered_departed: "mset (delivered tr) \<subseteq># mset (departed tr)"
proof (induction tr rule: departed.induct)
  case (3 es tr)
  then show ?case by (simp add: subset_mset.add_increasing)
qed simp_all

text \<open>
  \<^bold>\<open>Claim C1\<close> (as amended). For every schedule of \<^verbatim>\<open>addLogEntry\<close>, \<^verbatim>\<open>flush\<close>, timer and
  \<^verbatim>\<open>stop\<close> calls, of sends settling and of awaiting code resuming, from any state with
  no flush in flight:
  \<^item> entries are neither duplicated nor lost other than by a circuit-breaker drop: the
    entries that left the buffer, by a successful \<^verbatim>\<open>sendLogBatch\<close> or by a drop, those
    of the flushes in flight and those pending are together the entries pending at
    the start and the accepted ones, counted with multiplicity; the entries of the
    successful sends are among them;
  \<^item> if at no time two flushes are in flight, then the batches that left the buffer,
    concatenated in the order of these events, followed by the entries of the flush
    in flight and by the pending entries, are the entries pending at the start
    followed by the accepted entries in the order of their \<^verbatim>\<open>addLogEntry\<close> calls; so
    when no batch was dropped the same holds of the entries of the successful sends,
    and in every such schedule the entries of the successful sends appear in
    \<^verbatim>\<open>addLogEntry\<close> order; entries may be added while the flush is in flight;
  \<^item> when a send is rejected, the \<^verbatim>\<open>catch\<close> block puts the entries of the attempt in
    front of whatever the buffer holds by then.
\<close>

theorem order_preservation:
  fixes xs :: "event list" and s :: BatchClient
  defines "g \<equiv> fst (play xs (at_rest s))"
  defines "tr \<equiv> snd (play xs (at_rest s))"
  defines "added \<equiv> batch s @ taken (stopped s) xs"
  shows "mset (departed tr) + mset (in_flight g) + mset (batch (obj g)) = mset added
    \<and> mset (delivered tr) \<subseteq># mset added
    \<and> (one_at_a_time xs (at_rest s) \<longrightarrow>
          departed tr @ in_flight g @ batch (obj g) = added
          \<and> (dropped tr = [] \<longrightarrow> delivered tr @ in_flight g @ batch (obj g) = added)
          \<and> subseq (delivered tr) added)
    \<and> (fst (flush_settle n now bs t) = Inl e \<longrightarrow>
          batch (fst (snd (flush_settle n now bs t))) = bs @ batch t)"
proof -
  have a: "mset (departed tr) + mset (in_flight g) + mset (batch (obj g)) = mset added"
    using play_count [of xs "at_rest s"]
    by (simp add: g_def tr_def added_def at_rest_def in_flight_def)
  have "mset (delivered tr) \<subseteq># mset (departed tr)" by (rule delivered_departed)
  also have "\<dots> \<subseteq># mset (departed tr) + (mset (in_flight g) + mset (batch (obj g)))"
    by (rule mset_subset_eq_add_left)
  finally have b: "mset (delivered tr) \<subseteq># mset added" using a by (simp add: add.assoc)
  have c: "departed tr @ in_flight g @ batch (obj g) = added"
    "dropped tr = [] \<longrightarrow> delivered tr @ in_flight g @ batch (obj g) = added"
    "subseq (delivered tr) added"
    if one: "one_at_a_time xs (at_rest s)"
  proof -
    have "flights (at_rest s) = 1 \<longrightarrow> \<not> circuitOpen (obj (at_rest s))"
      by (simp add: flights_def at_rest_def)
    from play_serial [OF one this]
    show o: "departed tr @ in_flight g @ batch (obj g) = added"
      by (simp add: g_def tr_def added_def at_rest_def in_flight_def)
    show "dropped tr = [] \<longrightarrow> delivered tr @ in_flight g @ batch (obj g) = added"
      using o no_drop_departed [of tr] by auto
    have "subseq (delivered tr) (departed tr @ in_flight g @ batch (obj g))"
      using subseq_delivered [of tr] by (rule list_emb_prefix)
    then show "subseq (delivered tr) added" by (simp only: o)
  qed
  have d: "batch (fst (snd (flush_settle n now bs t))) = bs @ batch t"
    if "fst (flush_settle n now bs t) = Inl e"
    using that
    by (cases rule: flush_settle_cases [where n = n and now = now and bs = bs and s = t])
       simp_all
  from a b c d show ?thesis by blast
qed

text \<open>Claim C1 as stated fails, for two reasons. In the schedule \<open>overtaking\<close> the
  entries \<open>A\<close>, \<open>B\<close>, \<open>C\<close> are added in this order, nothing is dropped, nothing is left
  pending or in flight, and the successful send carries \<open>C\<close>, \<open>A\<close>, \<open>B\<close>: two flushes
  were in flight together and both were restored. In the history \<open>lossy_history\<close>, in
  which every call is completed before the next, \<open>A\<close> and \<open>B\<close> are added, the buffer is
  empty at the end, and the successful sends carry \<open>B\<close> only: \<open>A\<close> was dropped by the
  open circuit breaker.\<close>

theorem order_preservation_counterexample:
  "taken (stopped sturdy) overtaking = [entry ''A'', entry ''B'', entry ''C'']
   \<and> dropped (snd (play overtaking (at_rest sturdy))) = []
   \<and> batch (obj (fst (play overtaking (at_rest sturdy)))) = []
   \<and> in_flight (fst (play overtaking (at_rest sturdy))) = []
   \<and> delivered (snd (play overtaking (at_rest sturdy)))
       = [entry ''C'', entry ''A'', entry ''B'']
   \<and> accepted (stopped touchy) lossy_history = [entry ''A'', entry ''B'']
   \<and> batch (fst (run lossy_history touchy)) = []
   \<and> delivered (snd (run lossy_history touchy)) = [entry ''B'']"
  by (simp add: lossy_run overtaking_run)
     (simp add: lossy_history_def overtaking_def touchy_def sturdy_def)

theorem order_preservation_witness:
  "one_at_a_time patient (at_rest sturdy)
   \<and> dropped (snd (play patient (at_rest sturdy))) = []
   \<and> delivered (snd (play patient (at_rest sturdy)))
       @ in_flight (fst (play patient (at_rest sturdy)))
       @ batch (obj (fst (play patient (at_rest sturdy))))
     = batch sturdy @ taken (stopped sturdy) patient
   \<and> delivered (snd (play patient (at_rest sturdy)))
       = [entry ''A'', entry ''B'', entry ''C'']
   \<and> fst (flush_settle net_refused 5 [entry ''A'', entry ''B'']
             (sturdy\<lparr>batch := [entry ''C'']\<rparr>)) = Inl SocketError
   \<and> batch (fst (snd (flush_settle net_refused 5 [entry ''A'', entry ''B'']
                         (sturdy\<lparr>batch := [entry ''C'']\<rparr>))))
       = [entry ''A'', entry ''B''] @ batch (sturdy\<lparr>batch := [entry ''C'']\<rparr>)"
proof -
  have f: "fst (flush_settle net_refused 5 [entry ''A'', entry ''B'']
             (sturdy\<lparr>batch := [entry ''C'']\<rparr>)) = Inl SocketError"
    by (simp add: play_eval)
  from order_preservation [where xs = patient and s = sturdy and n = net_refused
      and now = 5 and bs = "[entry ''A'', entry ''B'']"
      and t = "sturdy\<lparr>batch := [entry ''C'']\<rparr>" and e = SocketError]
    patient_run f
  show ?thesis by blast
qed


subsection \<open>Circuit breaker\<close>








subsection \<open>Calls completed in one step\<close>

text \<open>A call that is completed before anything else happens is the schedule of the
  call, its send settling and the awaiting code resuming; a history of such calls is
  a schedule with at most one flush in flight.\<close>

lemma at_rest_obj [simp]: "(at_rest s)\<lparr>obj := t\<rparr> = at_rest t"
  by (simp add: at_rest_def)

lemma flush_unrolled:
  assumes o: "occur c g = start_flush (clock_gate ev) w (at_rest s)"
  shows "play [c, Settle 0 (transport ev) (clock_done ev), Resume 0] g =
     (case flush ev s of
        (r, s1, tr) \<Rightarrow>
          (case resume (case r of Inl e \<Rightarrow> Some e | Inr _ \<Rightarrow> None) w s1 of
             (s2, tr') \<Rightarrow> (at_rest s2, tr @ tr')))"
proof -
  let ?rest = "[Settle 0 (transport ev) (clock_done ev), Resume 0]"
  have p: "play (c # ?rest) g =
      (case start_flush (clock_gate ev) w (at_rest s) of
         (g1, tr1) \<Rightarrow> (case play ?rest g1 of (g2, tr2) \<Rightarrow> (g2, tr1 @ tr2)))"
    by (simp only: play.simps(2) [of c ?rest g] o)
  show ?thesis
  proof (cases rule: flush_begin_cases [where s = s and now = "clock_gate ev"])
    case idle
    then show ?thesis
      unfolding p
      by (simp add: flush_halves start_flush_def at_rest_def without_def split: prod.splits)
  next
    case dropping
    then show ?thesis
      unfolding p
      by (simp add: flush_halves start_flush_def at_rest_def without_def split: prod.splits)
  next
    case sending
    show ?thesis
    proof (cases rule: flush_settle_cases [where n = "transport ev" and now = "clock_done ev"
          and bs = "batch s" and s = "(gate_passed (clock_gate ev) s)\<lparr>batch := []\<rparr>"])
      case (sent c ios)
      with sending show ?thesis
        unfolding p
        by (simp add: flush_halves start_flush_def at_rest_def without_def split: prod.splits)
    next
      case (rejected e c ios)
      with sending show ?thesis
        unfolding p
        by (simp add: flush_halves start_flush_def at_rest_def without_def split: prod.splits)
    qed
  qed
qed

lemma idle_unrolled:
  assumes "occur c (at_rest s) = (at_rest s', tr)"
  shows "play [c, Settle 0 n later, Resume 0] (at_rest s) = (at_rest s', tr)"
  using assms by (simp add: at_rest_def)

lemma step_as_events:
  "play (unroll x) (at_rest s) = (at_rest (fst (step x s)), snd (step x s))"
proof (cases x)
  case (Add ev y)
  show ?thesis
  proof (cases "stopped s")
    case True
    then have "occur (CallAdd (clock_gate ev) y) (at_rest s) = (at_rest s, [])"
      by (simp add: at_rest_def)
    from idle_unrolled [OF this] True show ?thesis by (simp add: Add addLogEntry_def)
  next
    case running: False
    show ?thesis
    proof (cases "of_nat (length (batch (pushed y s))) \<ge> maxBatchSize (config (pushed y s))
                  \<or> of_nat (getEstimatedMemoryUsage (pushed y s))
                    \<ge> maxMemoryUsage (config (pushed y s))")
      case True
      with running
      have "occur (CallAdd (clock_gate ev) y) (at_rest s)
          = start_flush (clock_gate ev) Caller (at_rest (pushed y s))"
        by (auto simp: pushed_def Let_def at_rest_def)
      moreover from True running have "addLogEntry ev y s = flush ev (pushed y s)"
        by (auto simp: addLogEntry_def pushed_def Let_def)
      ultimately show ?thesis
        using flush_unrolled [of "CallAdd (clock_gate ev) y" "at_rest s" ev Caller "pushed y s"]
        by (simp add: Add resume_def split: prod.splits)
    next
      case False
      with running
      have "occur (CallAdd (clock_gate ev) y) (at_rest s) = (at_rest (pushed y s), [])"
        by (simp add: pushed_def Let_def at_rest_def)
      moreover from False running have "addLogEntry ev y s = (Inr (), pushed y s, [])"
        by (simp add: addLogEntry_def pushed_def Let_def)
      ultimately show ?thesis
        using idle_unrolled [of "CallAdd (clock_gate ev) y" s "pushed y s" "[]"]
        by (simp add: Add)
    qed
  qed
next
  case (Flush ev)
  have "occur (CallFlush (clock_gate ev)) (at_rest s)
      = start_flush (clock_gate ev) Caller (at_rest s)"
    by simp
  from flush_unrolled [OF this] show ?thesis
    by (simp add: Flush resume_def split: prod.splits)
next
  case (Timer ev)
  show ?thesis
  proof (cases "flushTimer s \<and> \<not> stopped s \<and> batch s \<noteq> []")
    case False
    then have "occur (TimerFires (clock_gate ev)) (at_rest s) = (at_rest s, [])"
      by (auto simp: at_rest_def Let_def)
    from idle_unrolled [OF this] False show ?thesis
      by (auto simp: Timer timerFires_def)
  next
    case True
    then have "occur (TimerFires (clock_gate ev)) (at_rest s)
        = start_flush (clock_gate ev) TimerCatch (at_rest s)"
      by (simp add: at_rest_def Let_def)
    from flush_unrolled [OF this] True show ?thesis
      by (simp add: Timer timerFires_def resume_def split: prod.splits sum.splits)
  qed
next
  case (Stop ev)
  define s3 where "s3 = s\<lparr>stopped := True, flushTimer := False, exitHandlers := False\<rparr>"
  show ?thesis
  proof (cases "batch s = []")
    case True
    then have "occur (CallStop (clock_gate ev)) (at_rest s)
        = (at_rest (fst (close_client s3)), snd (close_client s3))"
      by (simp add: Let_def s3_def at_rest_def split: prod.splits)
    from idle_unrolled [OF this] True show ?thesis
      by (simp add: Stop stop_def close_client_def s3_def Let_def split: prod.splits)
  next
    case False
    then have "occur (CallStop (clock_gate ev)) (at_rest s)
        = start_flush (clock_gate ev) StopTail (at_rest s3)"
      by (simp add: Let_def s3_def at_rest_def)
    from flush_unrolled [OF this] False show ?thesis
      by (simp add: Stop stop_def resume_def close_client_def s3_def Let_def
            split: prod.splits sum.splits)
  qed
qed

lemma run_as_events:
  "play (concat (map unroll xs)) (at_rest s) = (at_rest (fst (run xs s)), snd (run xs s))"
proof (induction xs arbitrary: s)
  case Nil
  show ?case by simp
next
  case (Cons x xs)
  have "play (concat (map unroll (x # xs))) (at_rest s)
      = (fst (play (concat (map unroll xs)) (fst (play (unroll x) (at_rest s)))),
         snd (play (unroll x) (at_rest s))
           @ snd (play (concat (map unroll xs)) (fst (play (unroll x) (at_rest s)))))"
    by (simp only: list.map concat.simps fst_play_append snd_play_append prod_eq_iff
          fst_conv snd_conv simp_thms)
  also have "\<dots> = (at_rest (fst (run xs (fst (step x s)))),
                   snd (step x s) @ snd (run xs (fst (step x s))))"
    by (simp only: step_as_events Cons.IH fst_conv snd_conv)
  also have "\<dots> = (at_rest (fst (run (x # xs) s)), snd (run (x # xs) s))"
    by (simp only: fst_run_Cons snd_run_Cons)
  finally show ?case .
qed


lemma filter_without_le: "length (filter P (without i ts)) \<le> length (filter P ts)"
proof (cases "i < length ts")
  case True
  have "length (filter P ts)
      = length (filter P (take i ts @ [ts ! i] @ drop (Suc i) ts))"
    using without_split [OF True] by simp
  then show ?thesis by (simp add: without_def)
next
  case False
  then show ?thesis by (simp add: without_def)
qed

lemma settle_flights: "flights (fst (occur (Settle i n later) g)) \<le> flights g"
proof (cases "i < length (tasks g)")
  case False
  then show ?thesis by simp
next
  case inside: True
  show ?thesis
  proof (cases "tasks g ! i")
    case (Settled r w)
    then show ?thesis by simp
  next
    case (InFlight bs w)
    show ?thesis
      by (cases rule: flush_settle_cases [where n = n and now = later and bs = bs and s = "obj g"])
         (simp_all add: inside InFlight flights_def filter_without_le)
  qed
qed

lemma resume_flights: "flights (fst (occur (Resume i) g)) \<le> flights g"
proof (cases "i < length (tasks g)")
  case False
  then show ?thesis by simp
next
  case inside: True
  show ?thesis
    by (cases "tasks g ! i")
       (simp_all add: inside flights_def filter_without_le split: prod.splits)
qed

lemma call_flights:
  assumes "tasks g = []"
  shows "flights (fst (occur x g)) \<le> 1"
proof (cases rule: occur_cases [where x = x and g = g])
  case quiet
  with assms show ?thesis by (simp add: flights_def)
next
  case (drop now)
  with assms show ?thesis by (simp add: flights_def)
next
  case (launch now w)
  with assms show ?thesis by (simp add: flights_def)
next
  case (landed i n now bs w c ios)
  with assms show ?thesis by simp
next
  case (crashed i n now bs w e c ios)
  with assms show ?thesis by simp
qed

lemma one_at_a_time_append:
  "one_at_a_time (xs @ ys) g \<longleftrightarrow> one_at_a_time xs g \<and> one_at_a_time ys (fst (play xs g))"
proof (induction xs arbitrary: g)
  case Nil
  show ?case using one_at_a_time_flights [of ys g] by auto
next
  case (Cons x xs)
  show ?case by (simp only: append_Cons one_at_a_time.simps Cons.IH fst_play_Cons conj_assoc)
qed

lemma unroll_serial: "one_at_a_time (unroll x) (at_rest s)"
proof -
  have k: "one_at_a_time [c, Settle 0 n later, Resume 0] (at_rest s)" for c n later
  proof -
    let ?g1 = "fst (occur c (at_rest s))"
    let ?g2 = "fst (occur (Settle 0 n later) ?g1)"
    have a: "flights ?g1 \<le> 1" by (rule call_flights) (simp add: at_rest_def)
    have b: "flights ?g2 \<le> 1" using settle_flights [of 0 n later ?g1] a by simp
    have c: "flights (fst (occur (Resume 0) ?g2)) \<le> 1"
      using resume_flights [of 0 ?g2] b by simp
    have "flights (at_rest s) \<le> 1" by (simp add: flights_def at_rest_def)
    with a b c show ?thesis by (simp only: one_at_a_time.simps simp_thms)
  qed
  show ?thesis by (cases x) (simp_all only: unroll.simps k)
qed

lemma run_serial: "one_at_a_time (concat (map unroll xs)) (at_rest s)"
proof (induction xs arbitrary: s)
  case Nil
  show ?case by (simp add: flights_def at_rest_def)
next
  case (Cons x xs)
  show ?case
    by (simp only: list.map concat.simps one_at_a_time_append unroll_serial step_as_events
          fst_conv Cons.IH simp_thms)
qed

lemma taken_unroll:
  "taken h (unroll x @ ys) = accepted h [x] @ taken (h \<or> (\<exists>ev. x = Stop ev)) ys"
  by (cases x) simp_all

lemma taken_as_accepted: "taken h (concat (map unroll xs)) = accepted h xs"
proof (induction xs arbitrary: h)
  case Nil
  show ?case by simp
next
  case (Cons x xs)
  show ?case
    by (simp only: list.map concat.simps taken_unroll Cons.IH accepted_Cons [of h x xs])
qed

end
